theory Spec2Isabelle
  imports Main
begin

section \<open>Data model of the hybrid free-space manager\<close>

text \<open>
  The Python class \<^verbatim>\<open>HybridSpaceManager\<close> keeps four fields: the capacity
  \<^verbatim>\<open>disk_size\<close>, the \<^verbatim>\<open>bitmap\<close> (a list of the integers 0 = free and
  1 = allocated), the head of a singly linked chain of \<^verbatim>\<open>FreeExtent\<close> nodes and
  the derived list \<^verbatim>\<open>groups\<close>. Each node of the chain is owned by exactly one
  \<^verbatim>\<open>next\<close> link, so the chain is modelled as the list of its nodes from the head:
  \<^verbatim>\<open>None\<close> is the empty list and \<^verbatim>\<open>node.next\<close> is the tail.
\<close>

datatype error = IndexError

datatype FreeExtent = FreeExtent (start: int) (size': int)

record HybridSpaceManager =
  disk_size :: int
  bitmap :: "int list"
  free_list :: "FreeExtent list"
  groups :: "(int \<times> int) list"

subsection \<open>Python list access and \<^verbatim>\<open>range\<close>\<close>

text \<open>
  Reading or writing \<^verbatim>\<open>xs[i]\<close> raises \<^verbatim>\<open>IndexError\<close> outside
  \<^verbatim>\<open>-len(xs) <= i < len(xs)\<close>; a negative index in that interval counts from the end.
\<close>

definition py_index :: "'a list \<Rightarrow> int \<Rightarrow> nat option" where
  "py_index xs i =
     (if 0 \<le> i \<and> i < int (length xs) then Some (nat i)
      else if i < 0 \<and> - int (length xs) \<le> i then Some (nat (int (length xs) + i))
      else None)"

definition bitmap_get :: "int list \<Rightarrow> int \<Rightarrow> error + int" where
  "bitmap_get bm i = (case py_index bm i of None \<Rightarrow> Inl IndexError | Some k \<Rightarrow> Inr (bm ! k))"

definition bitmap_set :: "int list \<Rightarrow> int \<Rightarrow> int \<Rightarrow> error + int list" where
  "bitmap_set bm i v = (case py_index bm i of None \<Rightarrow> Inl IndexError | Some k \<Rightarrow> Inr (bm[k := v]))"

text \<open>\<^verbatim>\<open>range(a, b)\<close>: the integers from a up to b - 1, empty when b <= a.\<close>

definition py_range :: "int \<Rightarrow> int \<Rightarrow> int list" where
  "py_range a b = map (\<lambda>k. a + int k) [0..<nat (b - a)]"

subsection \<open>\<^verbatim>\<open>update_groups\<close>\<close>

text \<open>
  The loop state is \<^verbatim>\<open>(self.groups, in_group, group_start)\<close>; the loop visits the
  indices of \<^verbatim>\<open>range(self.disk_size)\<close> in order.
\<close>

fun scan_bitmap ::
  "int list \<Rightarrow> int list \<Rightarrow> (int \<times> int) list \<times> bool \<times> int \<Rightarrow> error + ((int \<times> int) list \<times> bool \<times> int)"
where
  "scan_bitmap bm [] acc = Inr acc"
| "scan_bitmap bm (i # is) (gs, in_group, group_start) =
     (case bitmap_get bm i of
        Inl e \<Rightarrow> Inl e
      | Inr v \<Rightarrow>
          if v = 0 then
            (if \<not> in_group then scan_bitmap bm is (gs, True, i)
             else scan_bitmap bm is (gs, in_group, group_start))
          else
            (if in_group then scan_bitmap bm is (gs @ [(group_start, i - group_start)], False, group_start)
             else scan_bitmap bm is (gs, in_group, group_start)))"

definition update_groups :: "HybridSpaceManager \<Rightarrow> error + HybridSpaceManager" where
  "update_groups s =
     (case scan_bitmap (bitmap s) (py_range 0 (disk_size s)) ([], False, 0) of
        Inl e \<Rightarrow> Inl e
      | Inr (gs, in_group, group_start) \<Rightarrow>
          Inr (s\<lparr>groups := (if in_group then gs @ [(group_start, disk_size s - group_start)] else gs)\<rparr>))"

subsection \<open>\<^verbatim>\<open>__init__\<close>\<close>

definition init :: "int \<Rightarrow> error + HybridSpaceManager" where
  "init n =
     update_groups \<lparr>disk_size = n, bitmap = replicate (nat n) 0,
                    free_list = [FreeExtent 0 n], groups = []\<rparr>"

subsection \<open>\<^verbatim>\<open>allocate\<close>\<close>

text \<open>The occupancy loop: \<^verbatim>\<open>False\<close> at the first block that reads 1.\<close>

fun check_free :: "int list \<Rightarrow> int list \<Rightarrow> error + bool" where
  "check_free bm [] = Inr True"
| "check_free bm (i # is) =
     (case bitmap_get bm i of
        Inl e \<Rightarrow> Inl e
      | Inr v \<Rightarrow> if v = 1 then Inr False else check_free bm is)"

text \<open>The marking loop \<^verbatim>\<open>for i in ...: self.bitmap[i] = v\<close>.\<close>

fun mark_blocks :: "int \<Rightarrow> int list \<Rightarrow> int list \<Rightarrow> error + int list" where
  "mark_blocks v bm [] = Inr bm"
| "mark_blocks v bm (i # is) =
     (case bitmap_set bm i v of
        Inl e \<Rightarrow> Inl e
      | Inr bm' \<Rightarrow> mark_blocks v bm' is)"

text \<open>
  The \<^verbatim>\<open>while current\<close> loop of \<^verbatim>\<open>allocate\<close>: the first node that covers the
  request is removed, trimmed or split, and the loop stops; the nodes before it
  are kept.
\<close>

fun allocate_chain :: "int \<Rightarrow> int \<Rightarrow> FreeExtent list \<Rightarrow> FreeExtent list" where
  "allocate_chain st n [] = []"
| "allocate_chain st n (c # rest) =
     (if start c \<le> st \<and> start c + size' c \<ge> st + n then
        (if start c = st \<and> size' c = n then rest
         else if start c = st then FreeExtent (start c + n) (size' c - n) # rest
         else if start c + size' c = st + n then FreeExtent (start c) (size' c - n) # rest
         else FreeExtent (start c) (st - start c)
                # FreeExtent (st + n) (start c + size' c - st - n) # rest)
      else c # allocate_chain st n rest)"

definition allocate ::
  "HybridSpaceManager \<Rightarrow> int \<Rightarrow> int \<Rightarrow> error + ((bool \<times> int) \<times> HybridSpaceManager)"
where
  "allocate s st n =
     (if st < 0 \<or> st + n > disk_size s then Inr ((False, - 1), s)
      else
        case check_free (bitmap s) (py_range st (st + n)) of
          Inl e \<Rightarrow> Inl e
        | Inr False \<Rightarrow> Inr ((False, - 1), s)
        | Inr True \<Rightarrow>
            (case mark_blocks 1 (bitmap s) (py_range st (st + n)) of
               Inl e \<Rightarrow> Inl e
             | Inr bm \<Rightarrow>
                 (case update_groups
                         (s\<lparr>bitmap := bm, free_list := allocate_chain st n (free_list s)\<rparr>) of
                    Inl e \<Rightarrow> Inl e
                  | Inr s' \<Rightarrow> Inr ((True, st), s'))))"

subsection \<open>\<^verbatim>\<open>deallocate\<close>\<close>

text \<open>
  \<^verbatim>\<open>merge_next\<close> is the step "merge with next if adjacent": given the chain from
  the node \<^verbatim>\<open>current\<close> where the walk stopped, it returns the new extent and
  its \<^verbatim>\<open>next\<close> link.
\<close>

fun merge_next :: "int \<Rightarrow> int \<Rightarrow> FreeExtent list \<Rightarrow> FreeExtent \<times> FreeExtent list" where
  "merge_next st n [] = (FreeExtent st n, [])"
| "merge_next st n (c # rest) =
     (if start c = st + n then (FreeExtent st (n + size' c), rest)
      else (FreeExtent st n, c # rest))"

text \<open>
  \<^verbatim>\<open>merge_prev\<close> is the step "merge with prev if adjacent" for a node
  \<^verbatim>\<open>prev\<close> that is not \<^verbatim>\<open>None\<close>; the result is the chain from \<^verbatim>\<open>prev\<close> on.
\<close>

fun merge_prev :: "int \<Rightarrow> FreeExtent \<Rightarrow> FreeExtent \<times> FreeExtent list \<Rightarrow> FreeExtent list" where
  "merge_prev st prev (new_extent, nxt) =
     (if start prev + size' prev = st
      then FreeExtent (start prev) (size' prev + size' new_extent) # nxt
      else prev # new_extent # nxt)"

text \<open>
  The walk \<^verbatim>\<open>while current and current.start < start\<close> once \<^verbatim>\<open>prev\<close> is a
  node, followed by the two merge steps; the result is the chain from \<^verbatim>\<open>prev\<close> on.
\<close>

fun walk_chain :: "int \<Rightarrow> int \<Rightarrow> FreeExtent \<Rightarrow> FreeExtent list \<Rightarrow> FreeExtent list" where
  "walk_chain st n prev [] = merge_prev st prev (merge_next st n [])"
| "walk_chain st n prev (c # rest) =
     (if start c < st then prev # walk_chain st n c rest
      else merge_prev st prev (merge_next st n (c # rest)))"

text \<open>
  The list part of \<^verbatim>\<open>deallocate\<close>: an empty chain becomes the new extent alone;
  when the walk stops at the head, \<^verbatim>\<open>prev\<close> is \<^verbatim>\<open>None\<close> and the new extent
  becomes the head.
\<close>

fun deallocate_chain :: "int \<Rightarrow> int \<Rightarrow> FreeExtent list \<Rightarrow> FreeExtent list" where
  "deallocate_chain st n [] = [FreeExtent st n]"
| "deallocate_chain st n (c # rest) =
     (if start c < st then walk_chain st n c rest
      else (case merge_next st n (c # rest) of (new_extent, nxt) \<Rightarrow> new_extent # nxt))"

definition deallocate ::
  "HybridSpaceManager \<Rightarrow> int \<Rightarrow> int \<Rightarrow> error + (bool \<times> HybridSpaceManager)"
where
  "deallocate s st n =
     (if st + n > disk_size s \<or> st < 0 then Inr (False, s)
      else
        case mark_blocks 0 (bitmap s) (py_range st (st + n)) of
          Inl e \<Rightarrow> Inl e
        | Inr bm \<Rightarrow>
            (case update_groups
                    (s\<lparr>bitmap := bm, free_list := deallocate_chain st n (free_list s)\<rparr>) of
               Inl e \<Rightarrow> Inl e
             | Inr s' \<Rightarrow> Inr (True, s')))"

section \<open>Sequences of calls\<close>

text \<open>
  The interactive form applies one \<^verbatim>\<open>allocate\<close> or \<^verbatim>\<open>deallocate\<close> at a time to
  the single manager; only the success flag and the manager are kept between calls.
\<close>

datatype call = Allocate int int | Deallocate int int

fun apply_call :: "HybridSpaceManager \<Rightarrow> call \<Rightarrow> error + (bool \<times> HybridSpaceManager)" where
  "apply_call s (Allocate st n) =
     (case allocate s st n of Inl e \<Rightarrow> Inl e | Inr (res, s') \<Rightarrow> Inr (fst res, s'))"
| "apply_call s (Deallocate st n) = deallocate s st n"

fun run :: "HybridSpaceManager \<Rightarrow> call list \<Rightarrow> error + HybridSpaceManager" where
  "run s [] = Inr s"
| "run s (c # cs) =
     (case apply_call s c of Inl e \<Rightarrow> Inl e | Inr (ok, s') \<Rightarrow> run s' cs)"

text \<open>
  A call is valid in a state when the count is at least one, the range lies on
  the device, and the targeted blocks are all free (for an allocation) or all
  allocated (for a deallocation).
\<close>

fun valid_call :: "HybridSpaceManager \<Rightarrow> call \<Rightarrow> bool" where
  "valid_call s (Allocate st n) =
     (1 \<le> n \<and> 0 \<le> st \<and> st + n \<le> disk_size s \<and>
      (\<forall>i\<in>set (py_range st (st + n)). bitmap s ! nat i = 0))"
| "valid_call s (Deallocate st n) =
     (1 \<le> n \<and> 0 \<le> st \<and> st + n \<le> disk_size s \<and>
      (\<forall>i\<in>set (py_range st (st + n)). bitmap s ! nat i = 1))"

fun valid_run :: "HybridSpaceManager \<Rightarrow> call list \<Rightarrow> bool" where
  "valid_run s [] = True"
| "valid_run s (c # cs) =
     (valid_call s c \<and>
      (case apply_call s c of Inl e \<Rightarrow> False | Inr (ok, s') \<Rightarrow> valid_run s' cs))"

section \<open>Invariants\<close>

text \<open>The state that \<^verbatim>\<open>__init__\<close> builds for a capacity.\<close>

definition fresh_state :: "int \<Rightarrow> HybridSpaceManager" where
  "fresh_state n =
     \<lparr>disk_size = n, bitmap = replicate (nat n) 0, free_list = [FreeExtent 0 n],
      groups = (if 0 < n then [(0, n)] else [])\<rparr>"

definition covers :: "FreeExtent \<Rightarrow> int \<Rightarrow> bool" where
  "covers e i = (start e \<le> i \<and> i < start e + size' e)"

definition covered :: "FreeExtent list \<Rightarrow> int \<Rightarrow> bool" where
  "covered fl i = (\<exists>e\<in>set fl. covers e i)"

text \<open>Two extents overlap when their index ranges share a block.\<close>

definition overlap :: "FreeExtent \<Rightarrow> FreeExtent \<Rightarrow> bool" where
  "overlap a b = (max (start a) (start b) < min (start a + size' a) (start b + size' b))"

definition extent_pairs :: "FreeExtent list \<Rightarrow> (int \<times> int) list" where
  "extent_pairs fl = map (\<lambda>e. (start e, size' e)) fl"

text \<open>
  The data model: the bitmap has one flag per block, every flag is 0 or 1, and
  every extent has a positive length and lies on the device.
\<close>

definition bitmap_sized :: "HybridSpaceManager \<Rightarrow> bool" where
  "bitmap_sized s = (length (bitmap s) = nat (disk_size s))"

definition well_formed :: "HybridSpaceManager \<Rightarrow> bool" where
  "well_formed s =
     (bitmap_sized s \<and> set (bitmap s) \<subseteq> {0, 1} \<and>
      (\<forall>e\<in>set (free_list s). 0 < size' e \<and> 0 \<le> start e \<and> start e + size' e \<le> disk_size s))"

definition inv1 :: "HybridSpaceManager \<Rightarrow> bool" where
  "inv1 s = (\<forall>i\<in>set (py_range 0 (disk_size s)).
               (bitmap s ! nat i = 1) = (\<not> covered (free_list s) i))"

definition inv2 :: "HybridSpaceManager \<Rightarrow> bool" where
  "inv2 s =
     sorted_wrt (\<lambda>a b. \<not> overlap a b \<and> start a < start b \<and> start a + size' a < start b)
       (free_list s)"

definition inv3 :: "HybridSpaceManager \<Rightarrow> bool" where
  "inv3 s = (sum_list (map size' (free_list s)) + int (count_list (bitmap s) 1) = disk_size s)"

definition inv4 :: "HybridSpaceManager \<Rightarrow> bool" where
  "inv4 s = (update_groups s = Inr s \<and> groups s = extent_pairs (free_list s))"

definition invariants :: "HybridSpaceManager \<Rightarrow> bool" where
  "invariants s = (well_formed s \<and> inv1 s \<and> inv2 s \<and> inv3 s \<and> inv4 s)"

text \<open>
  The maximal runs of free blocks of a bitmap of \<open>N\<close> blocks, as (start, length)
  pairs in ascending order: every pair is a non-empty run of free blocks that
  cannot be extended to the left or to the right, every free block lies in one
  of the pairs, and the starts increase strictly.
\<close>

definition maximal_free_runs :: "int list \<Rightarrow> int \<Rightarrow> (int \<times> int) list \<Rightarrow> bool" where
  "maximal_free_runs bm N gs =
     ((\<forall>g\<in>set gs. 0 \<le> fst g \<and> 0 < snd g \<and> fst g + snd g \<le> N \<and>
          (\<forall>i\<in>set (py_range (fst g) (fst g + snd g)). bm ! nat i = 0) \<and>
          (fst g = 0 \<or> bm ! nat (fst g - 1) \<noteq> 0) \<and>
          (fst g + snd g = N \<or> bm ! nat (fst g + snd g) \<noteq> 0)) \<and>
      (\<forall>i\<in>set (py_range 0 N). bm ! nat i = 0 \<longrightarrow> (\<exists>g\<in>set gs. fst g \<le> i \<and> i < fst g + snd g)) \<and>
      sorted_wrt (\<lambda>g h. fst g < fst h) gs)"

text \<open>The chain is separated when every extent ends before each later one starts.\<close>

definition separated :: "FreeExtent list \<Rightarrow> bool" where
  "separated fl = sorted_wrt (\<lambda>a b. start a + size' a < start b) fl"

definition extents_on :: "int \<Rightarrow> FreeExtent list \<Rightarrow> bool" where
  "extents_on N fl = (\<forall>e\<in>set fl. 0 < size' e \<and> 0 \<le> start e \<and> start e + size' e \<le> N)"

text \<open>
  The list update of \<^verbatim>\<open>deallocate\<close> in the words of the specification, for a
  chain cut at the insertion position into the extents before it and the extents
  from it on: the candidate extent \<open>(start, n)\<close> is inserted at that position; if
  the node immediately following starts exactly at \<open>start + n\<close>, the candidate
  absorbs its length and the node is spliced out; if the node immediately
  preceding ends exactly at \<open>start\<close>, the (possibly already merged) candidate is
  merged into the predecessor instead of being inserted as a new node.
\<close>

definition spec_insert_coalesce ::
  "int \<Rightarrow> int \<Rightarrow> FreeExtent list \<Rightarrow> FreeExtent list \<Rightarrow> FreeExtent list"
where
  "spec_insert_coalesce st n before following =
     (let merges_next = (following \<noteq> [] \<and> start (hd following) = st + n);
          candidate = (if merges_next then FreeExtent st (n + size' (hd following))
                       else FreeExtent st n);
          after = (if merges_next then tl following else following)
      in if before \<noteq> [] \<and> start (last before) + size' (last before) = st
         then butlast before
                @ FreeExtent (start (last before)) (size' (last before) + size' candidate) # after
         else before @ candidate # after)"

text \<open>
  The loop invariant of \<^verbatim>\<open>update_groups\<close> before index \<open>k\<close>: the collected groups
  are the maximal free runs that end before \<open>k\<close>, in ascending order; when
  \<^verbatim>\<open>in_group\<close> holds, the blocks from \<^verbatim>\<open>group_start\<close> up to \<open>k\<close> are a free run
  that cannot be extended to the left; every free block below \<open>k\<close> lies in a
  collected group or in the open run.
\<close>

definition scan_inv :: "int list \<Rightarrow> int \<Rightarrow> (int \<times> int) list \<Rightarrow> bool \<Rightarrow> int \<Rightarrow> bool" where
  "scan_inv bm k gs in_group group_start =
     ((\<forall>g\<in>set gs. 0 \<le> fst g \<and> 0 < snd g \<and> fst g + snd g < k \<and>
          (\<forall>i\<in>{fst g..<fst g + snd g}. bm ! nat i = 0) \<and>
          (fst g = 0 \<or> bm ! nat (fst g - 1) \<noteq> 0) \<and>
          bm ! nat (fst g + snd g) \<noteq> 0) \<and>
      sorted_wrt (\<lambda>g h. fst g < fst h) gs \<and>
      (in_group \<longrightarrow> 0 \<le> group_start \<and> group_start < k \<and>
          (\<forall>i\<in>{group_start..<k}. bm ! nat i = 0) \<and>
          (group_start = 0 \<or> bm ! nat (group_start - 1) \<noteq> 0) \<and>
          (\<forall>g\<in>set gs. fst g < group_start)) \<and>
      (\<forall>i\<in>{0..<k}. bm ! nat i = 0 \<longrightarrow>
          (\<exists>g\<in>set gs. fst g \<le> i \<and> i < fst g + snd g) \<or> (in_group \<and> group_start \<le> i)))"

section \<open>Ranges and list access\<close>

lemma set_py_range [simp]: "set (py_range a b) = {a..<b}"
proof -
  have "(\<lambda>k. a + int k) ` {0..<nat (b - a)} = {a..<b}"
  proof (intro set_eqI iffI)
    fix x assume "x \<in> (\<lambda>k. a + int k) ` {0..<nat (b - a)}"
    then show "x \<in> {a..<b}" by auto
  next
    fix x assume x: "x \<in> {a..<b}"
    then have "x = a + int (nat (x - a))" "nat (x - a) \<in> {0..<nat (b - a)}" by auto
    then show "x \<in> (\<lambda>k. a + int k) ` {0..<nat (b - a)}" by blast
  qed
  then show ?thesis by (simp add: py_range_def)
qed

lemma py_range_empty [simp]: "b \<le> a \<Longrightarrow> py_range a b = []"
  by (simp add: py_range_def)

lemma py_range_rec: "a < b \<Longrightarrow> py_range a b = a # py_range (a + 1) b"
proof -
  assume ab: "a < b"
  then obtain m where m: "nat (b - a) = Suc m" by (cases "nat (b - a)") auto
  then have m': "nat (b - (a + 1)) = m" by linarith
  have "[0..<Suc m] = 0 # map Suc [0..<m]"
    by (simp add: upt_conv_Cons map_Suc_upt del: upt_Suc)
  then have "map (\<lambda>k. a + int k) [0..<Suc m] = a # map (\<lambda>k. a + 1 + int k) [0..<m]"
    by (simp add: o_def del: upt_Suc)
  then show ?thesis by (simp add: py_range_def m m')
qed

lemma bitmap_get_in [simp]:
  "0 \<le> i \<Longrightarrow> i < int (length bm) \<Longrightarrow> bitmap_get bm i = Inr (bm ! nat i)"
  by (simp add: bitmap_get_def py_index_def)

lemma bitmap_set_in [simp]:
  "0 \<le> i \<Longrightarrow> i < int (length bm) \<Longrightarrow> bitmap_set bm i v = Inr (bm[nat i := v])"
  by (simp add: bitmap_set_def py_index_def)

lemma check_free_in:
  "\<forall>i\<in>set is. 0 \<le> i \<and> i < int (length bm) \<Longrightarrow>
   check_free bm is = Inr (\<forall>i\<in>set is. bm ! nat i \<noteq> 1)"
  by (induction "is") auto

lemma mark_blocks_in:
  "\<forall>i\<in>set is. 0 \<le> i \<and> i < int (length bm) \<Longrightarrow>
   \<exists>bm'. mark_blocks v bm is = Inr bm' \<and> length bm' = length bm \<and>
     (\<forall>k < length bm. bm' ! k = (if int k \<in> set is then v else bm ! k))"
proof (induction "is" arbitrary: bm)
  case Nil
  then show ?case by simp
next
  case (Cons i "is")
  let ?b = "bm[nat i := v]"
  from Cons.prems have i: "0 \<le> i" "i < int (length bm)" by auto
  from Cons.prems have "\<forall>j\<in>set is. 0 \<le> j \<and> j < int (length ?b)" by auto
  from Cons.IH[OF this] obtain bm' where
    bm': "mark_blocks v ?b is = Inr bm'" "length bm' = length bm"
      "\<forall>k < length bm. bm' ! k = (if int k \<in> set is then v else ?b ! k)" by auto
  have "\<forall>k < length bm. bm' ! k = (if int k \<in> set (i # is) then v else bm ! k)"
  proof (intro allI impI)
    fix k assume k: "k < length bm"
    show "bm' ! k = (if int k \<in> set (i # is) then v else bm ! k)"
      using bm'(3) k i by (cases "k = nat i") (auto simp: nth_list_update)
  qed
  with bm' i show ?case by simp
qed

lemma scan_bitmap_in:
  "\<forall>i\<in>set is. 0 \<le> i \<and> i < int (length bm) \<Longrightarrow> \<exists>r. scan_bitmap bm is acc = Inr r"
  by (induction bm "is" acc rule: scan_bitmap.induct) auto

lemma update_groups_total:
  assumes "nat (disk_size s) \<le> length (bitmap s)"
  shows "\<exists>gs. update_groups s = Inr (s\<lparr>groups := gs\<rparr>)"
proof -
  have "\<forall>i\<in>set (py_range 0 (disk_size s)). 0 \<le> i \<and> i < int (length (bitmap s))"
    using assms by auto
  from scan_bitmap_in[OF this] obtain r where
    "scan_bitmap (bitmap s) (py_range 0 (disk_size s)) ([], False, 0) = Inr r" by blast
  then show ?thesis by (cases r) (force simp: update_groups_def)
qed

lemma update_groups_idem: "update_groups s = Inr s' \<Longrightarrow> update_groups s' = Inr s'"
  by (auto simp: update_groups_def split: sum.splits prod.splits)

lemma allocate_failure:
  assumes "bitmap_sized s"
      and "st < 0 \<or> disk_size s < st + n \<or> (\<exists>i\<in>set (py_range st (st + n)). bitmap s ! nat i = 1)"
  shows "allocate s st n = Inr ((False, - 1), s)"
proof (cases "st < 0 \<or> disk_size s < st + n")
  case True
  then show ?thesis by (simp add: allocate_def)
next
  case False
  then have "\<forall>i\<in>set (py_range st (st + n)). 0 \<le> i \<and> i < int (length (bitmap s))"
    using assms(1) by (auto simp: bitmap_sized_def)
  from check_free_in[OF this] assms(2) False
  have "check_free (bitmap s) (py_range st (st + n)) = Inr False" by auto
  with False show ?thesis by (simp add: allocate_def)
qed

lemma allocate_success:
  assumes "bitmap_sized s" "0 \<le> st" "st + n \<le> disk_size s"
      and "\<forall>i\<in>set (py_range st (st + n)). bitmap s ! nat i \<noteq> 1"
  shows "\<exists>bm gs. allocate s st n =
            Inr ((True, st), \<lparr>disk_size = disk_size s, bitmap = bm,
                   free_list = allocate_chain st n (free_list s), groups = gs\<rparr>) \<and>
          length bm = length (bitmap s) \<and>
          (\<forall>k < length bm. bm ! k = (if st \<le> int k \<and> int k < st + n then 1 else bitmap s ! k))"
proof -
  have rng: "\<forall>i\<in>set (py_range st (st + n)). 0 \<le> i \<and> i < int (length (bitmap s))"
    using assms(1-3) by (auto simp: bitmap_sized_def)
  from check_free_in[OF rng] assms(4)
  have cf: "check_free (bitmap s) (py_range st (st + n)) = Inr True" by simp
  from mark_blocks_in[OF rng, of 1] obtain bm where
    bm: "mark_blocks 1 (bitmap s) (py_range st (st + n)) = Inr bm" "length bm = length (bitmap s)"
      "\<forall>k < length (bitmap s). bm ! k = (if int k \<in> set (py_range st (st + n)) then 1 else bitmap s ! k)"
    by blast
  let ?t = "s\<lparr>bitmap := bm, free_list := allocate_chain st n (free_list s)\<rparr>"
  have "nat (disk_size ?t) \<le> length (bitmap ?t)"
    using assms(1) bm(2) by (simp add: bitmap_sized_def)
  from update_groups_total[OF this] obtain gs where
    gs: "update_groups ?t = Inr (?t\<lparr>groups := gs\<rparr>)" by blast
  have "allocate s st n = Inr ((True, st), ?t\<lparr>groups := gs\<rparr>)"
    using assms(2,3) cf bm(1) gs by (simp add: allocate_def)
  moreover have "?t\<lparr>groups := gs\<rparr> = \<lparr>disk_size = disk_size s, bitmap = bm,
                   free_list = allocate_chain st n (free_list s), groups = gs\<rparr>" by simp
  ultimately show ?thesis using bm(2,3) by auto
qed

lemma deallocate_success:
  assumes "bitmap_sized s" "0 \<le> st" "st + n \<le> disk_size s"
  shows "\<exists>bm gs. deallocate s st n =
            Inr (True, \<lparr>disk_size = disk_size s, bitmap = bm,
                   free_list = deallocate_chain st n (free_list s), groups = gs\<rparr>) \<and>
          length bm = length (bitmap s) \<and>
          (\<forall>k < length bm. bm ! k = (if st \<le> int k \<and> int k < st + n then 0 else bitmap s ! k))"
proof -
  have rng: "\<forall>i\<in>set (py_range st (st + n)). 0 \<le> i \<and> i < int (length (bitmap s))"
    using assms(1-3) by (auto simp: bitmap_sized_def)
  from mark_blocks_in[OF rng, of 0] obtain bm where
    bm: "mark_blocks 0 (bitmap s) (py_range st (st + n)) = Inr bm" "length bm = length (bitmap s)"
      "\<forall>k < length (bitmap s). bm ! k = (if int k \<in> set (py_range st (st + n)) then 0 else bitmap s ! k)"
    by blast
  let ?t = "s\<lparr>bitmap := bm, free_list := deallocate_chain st n (free_list s)\<rparr>"
  have "nat (disk_size ?t) \<le> length (bitmap ?t)"
    using assms(1) bm(2) by (simp add: bitmap_sized_def)
  from update_groups_total[OF this] obtain gs where
    gs: "update_groups ?t = Inr (?t\<lparr>groups := gs\<rparr>)" by blast
  have "deallocate s st n = Inr (True, ?t\<lparr>groups := gs\<rparr>)"
    using assms(2,3) bm(1) gs by (simp add: deallocate_def)
  moreover have "?t\<lparr>groups := gs\<rparr> = \<lparr>disk_size = disk_size s, bitmap = bm,
                   free_list = deallocate_chain st n (free_list s), groups = gs\<rparr>" by simp
  ultimately show ?thesis using bm(2,3) by auto
qed

section \<open>Claims about single calls\<close>

text \<open>
  C6. On a fully free device of 50 blocks, \<^verbatim>\<open>allocate(10, 5)\<close> succeeds and leaves the
  free extents [0:10) and [15:50); then \<^verbatim>\<open>allocate(0, 10)\<close> and
  \<^verbatim>\<open>allocate(15, 35)\<close> both succeed and leave the free list empty.
\<close>

theorem split_on_fresh_device:
  "init 50 = Inr \<lparr>disk_size = 50, bitmap = replicate 50 0,
                  free_list = [FreeExtent 0 50], groups = [(0, 50)]\<rparr> \<and>
   allocate \<lparr>disk_size = 50, bitmap = replicate 50 0,
             free_list = [FreeExtent 0 50], groups = [(0, 50)]\<rparr> 10 5 =
     Inr ((True, 10),
          \<lparr>disk_size = 50, bitmap = replicate 10 0 @ replicate 5 1 @ replicate 35 0,
           free_list = [FreeExtent 0 10, FreeExtent 15 35], groups = [(0, 10), (15, 35)]\<rparr>) \<and>
   allocate \<lparr>disk_size = 50, bitmap = replicate 10 0 @ replicate 5 1 @ replicate 35 0,
             free_list = [FreeExtent 0 10, FreeExtent 15 35], groups = [(0, 10), (15, 35)]\<rparr> 0 10 =
     Inr ((True, 0),
          \<lparr>disk_size = 50, bitmap = replicate 15 1 @ replicate 35 0,
           free_list = [FreeExtent 15 35], groups = [(15, 35)]\<rparr>) \<and>
   allocate \<lparr>disk_size = 50, bitmap = replicate 15 1 @ replicate 35 0,
             free_list = [FreeExtent 15 35], groups = [(15, 35)]\<rparr> 15 35 =
     Inr ((True, 15),
          \<lparr>disk_size = 50, bitmap = replicate 50 1, free_list = [], groups = []\<rparr>)"
  by code_simp

text \<open>
  C4. A call of \<^verbatim>\<open>allocate\<close> or \<^verbatim>\<open>deallocate\<close> that returns failure returns the
  manager exactly as it was: bitmap, free list and groups are unchanged.
\<close>

theorem failed_call_leaves_state:
  "(allocate s st n = Inr (res, s') \<and> \<not> fst res \<longrightarrow> s' = s) \<and>
   (deallocate s st n = Inr (ok, t') \<and> \<not> ok \<longrightarrow> t' = s)"
  by (auto simp: allocate_def deallocate_def split: if_splits sum.splits bool.splits)

theorem failed_call_leaves_state_witness:
  "allocate (fresh_state 50) 48 5 = Inr ((False, - 1), fresh_state 50) \<and>
   deallocate (fresh_state 50) 48 5 = Inr (False, fresh_state 50)"
proof -
  obtain res s' where a: "allocate (fresh_state 50) 48 5 = Inr (res, s')" and r: "res = (False, - 1)"
    by (simp add: allocate_def fresh_state_def)
  obtain t' where d: "deallocate (fresh_state 50) 48 5 = Inr (False, t')"
    by (simp add: deallocate_def fresh_state_def)
  from failed_call_leaves_state[of "fresh_state 50" 48 5 res s' False t'] a d r
  show ?thesis by simp
qed

text \<open>
  C10. For every start with \<open>0 \<le> start \<le> disk_size\<close>, \<^verbatim>\<open>allocate(start, 0)\<close>
  returns success with the requested start and leaves every entry of the bitmap
  unchanged.
\<close>

theorem zero_count_allocation_succeeds:
  assumes "bitmap_sized s" "0 \<le> st" "st \<le> disk_size s"
  shows "\<exists>s'. allocate s st 0 = Inr ((True, st), s') \<and> bitmap s' = bitmap s"
proof -
  from allocate_success[of s st 0] assms obtain bm gs where
    a: "allocate s st 0 = Inr ((True, st), \<lparr>disk_size = disk_size s, bitmap = bm,
                   free_list = allocate_chain st 0 (free_list s), groups = gs\<rparr>)"
    and l: "length bm = length (bitmap s)"
    and b: "\<forall>k < length bm. bm ! k = (if st \<le> int k \<and> int k < st + 0 then 1 else bitmap s ! k)"
    by auto
  have "bm = bitmap s" using l b by (intro nth_equalityI) auto
  with a show ?thesis by simp
qed

theorem zero_count_allocation_succeeds_witness:
  "bitmap_sized \<lparr>disk_size = 5, bitmap = [0, 0, 1, 0, 0],
       free_list = [FreeExtent 0 2, FreeExtent 3 2], groups = [(0, 2), (3, 2)]\<rparr> \<and>
   (\<exists>s'. allocate \<lparr>disk_size = 5, bitmap = [0, 0, 1, 0, 0],
       free_list = [FreeExtent 0 2, FreeExtent 3 2], groups = [(0, 2), (3, 2)]\<rparr> 1 0 = Inr ((True, 1), s')
     \<and> bitmap s' = [0, 0, 1, 0, 0])"
proof -
  let ?s = "\<lparr>disk_size = 5, bitmap = [0, 0, 1, 0, 0],
       free_list = [FreeExtent 0 2, FreeExtent 3 2], groups = [(0, 2), (3, 2)]\<rparr>"
  have h: "bitmap_sized ?s" by (simp add: bitmap_sized_def)
  from zero_count_allocation_succeeds[OF h, of 1] h show ?thesis by simp
qed

text \<open>
  C2 as stated fails: \<^verbatim>\<open>allocate\<close> has one failure value, \<^verbatim>\<open>(False, -1)\<close>, for a
  range violation and for an occupied block alike. On the 50-block device
  \<^verbatim>\<open>allocate(48, 5)\<close> and, after \<^verbatim>\<open>allocate(0, 5)\<close>, \<^verbatim>\<open>allocate(2, 2)\<close> return
  the same result.
\<close>

theorem allocate_failures_not_distinguishable:
  "allocate (fresh_state 50) 48 5 = Inr ((False, - 1), fresh_state 50) \<and>
   allocate (fresh_state 50) 0 5 =
     Inr ((True, 0), \<lparr>disk_size = 50, bitmap = replicate 5 1 @ replicate 45 0,
                      free_list = [FreeExtent 5 45], groups = [(5, 45)]\<rparr>) \<and>
   allocate \<lparr>disk_size = 50, bitmap = replicate 5 1 @ replicate 45 0,
             free_list = [FreeExtent 5 45], groups = [(5, 45)]\<rparr> 2 2 =
     Inr ((False, - 1), \<lparr>disk_size = 50, bitmap = replicate 5 1 @ replicate 45 0,
                         free_list = [FreeExtent 5 45], groups = [(5, 45)]\<rparr>) \<and>
   fst (projr (allocate (fresh_state 50) 48 5)) =
   fst (projr (allocate \<lparr>disk_size = 50, bitmap = replicate 5 1 @ replicate 45 0,
             free_list = [FreeExtent 5 45], groups = [(5, 45)]\<rparr> 2 2))"
  by code_simp

text \<open>
  C2, amended. \<^verbatim>\<open>allocate\<close> fails exactly when start is negative, or start + n
  exceeds \<^verbatim>\<open>disk_size\<close>, or some block of the range reads 1; every failure is the
  one value \<^verbatim>\<open>(False, -1)\<close> with the manager unchanged, so the result does not
  tell the caller which check failed. In every other case it returns
  \<^verbatim>\<open>(True, start)\<close>.
\<close>

theorem allocate_single_failure_value:
  assumes "bitmap_sized s"
  shows "(st < 0 \<or> disk_size s < st + n \<or>
            (\<exists>i\<in>set (py_range st (st + n)). bitmap s ! nat i = 1)
          \<longrightarrow> allocate s st n = Inr ((False, - 1), s)) \<and>
         (\<not> (st < 0 \<or> disk_size s < st + n \<or>
            (\<exists>i\<in>set (py_range st (st + n)). bitmap s ! nat i = 1))
          \<longrightarrow> (\<exists>s'. allocate s st n = Inr ((True, st), s')))"
proof (intro conjI impI)
  assume "st < 0 \<or> disk_size s < st + n \<or> (\<exists>i\<in>set (py_range st (st + n)). bitmap s ! nat i = 1)"
  with assms show "allocate s st n = Inr ((False, - 1), s)" by (rule allocate_failure)
next
  assume h: "\<not> (st < 0 \<or> disk_size s < st + n \<or>
            (\<exists>i\<in>set (py_range st (st + n)). bitmap s ! nat i = 1))"
  then have "0 \<le> st" "st + n \<le> disk_size s"
    "\<forall>i\<in>set (py_range st (st + n)). bitmap s ! nat i \<noteq> 1" by auto
  from allocate_success[OF assms this] show "\<exists>s'. allocate s st n = Inr ((True, st), s')"
    by blast
qed

theorem allocate_single_failure_value_witness:
  "bitmap_sized (fresh_state 50) \<and>
   allocate (fresh_state 50) 48 5 = Inr ((False, - 1), fresh_state 50) \<and>
   bitmap_sized \<lparr>disk_size = 50, bitmap = replicate 5 1 @ replicate 45 0,
             free_list = [FreeExtent 5 45], groups = [(5, 45)]\<rparr> \<and>
   allocate \<lparr>disk_size = 50, bitmap = replicate 5 1 @ replicate 45 0,
             free_list = [FreeExtent 5 45], groups = [(5, 45)]\<rparr> 2 2 =
     Inr ((False, - 1), \<lparr>disk_size = 50, bitmap = replicate 5 1 @ replicate 45 0,
                         free_list = [FreeExtent 5 45], groups = [(5, 45)]\<rparr>) \<and>
   (\<exists>s'. allocate (fresh_state 50) 0 5 = Inr ((True, 0), s'))"
proof -
  let ?t = "\<lparr>disk_size = 50, bitmap = replicate 5 1 @ replicate 45 0,
             free_list = [FreeExtent 5 45], groups = [(5, 45)]\<rparr>"
  have f: "bitmap_sized (fresh_state 50)" by (simp add: bitmap_sized_def fresh_state_def)
  have t: "bitmap_sized ?t" by (simp add: bitmap_sized_def)
  have occ: "\<exists>i\<in>set (py_range 2 (2 + 2)). bitmap ?t ! nat i = 1"
    by (intro bexI[of _ 2]) (simp_all add: nth_append)
  have free: "\<not> (\<exists>i\<in>set (py_range 0 (0 + 5)). bitmap (fresh_state 50) ! nat i = 1)"
    by (auto simp: fresh_state_def)
  from allocate_single_failure_value[OF f, of 48 5]
       allocate_single_failure_value[OF t, of 2 2]
       allocate_single_failure_value[OF f, of 0 5] f t occ free
  show ?thesis by (simp add: fresh_state_def)
qed

text \<open>
  C3 as stated fails: there is no check of the count. On the fresh 50-block
  device \<^verbatim>\<open>allocate(0, 0)\<close>, \<^verbatim>\<open>deallocate(0, 0)\<close> and \<^verbatim>\<open>allocate(10, -3)\<close>
  all return success.
\<close>

theorem nonpositive_count_accepted:
  "allocate (fresh_state 50) 0 0 = Inr ((True, 0), fresh_state 50) \<and>
   deallocate (fresh_state 50) 0 0 = Inr (True, fresh_state 50) \<and>
   allocate (fresh_state 50) 10 (- 3) =
     Inr ((True, 10), \<lparr>disk_size = 50, bitmap = replicate 50 0,
                       free_list = [FreeExtent 0 10, FreeExtent 7 43], groups = [(0, 50)]\<rparr>)"
  by code_simp

text \<open>
  C3, amended. For a count \<open>n \<le> 0\<close> the only check is the range check: both
  \<^verbatim>\<open>allocate(start, n)\<close> and \<^verbatim>\<open>deallocate(start, n)\<close> fail, with the single failure
  value and the manager unchanged, when start is negative or start + n exceeds
  \<^verbatim>\<open>disk_size\<close>, and both return success otherwise.
\<close>

theorem nonpositive_count_only_range_checked:
  assumes "bitmap_sized s" "n \<le> 0"
  shows "(st < 0 \<or> disk_size s < st + n \<longrightarrow>
            allocate s st n = Inr ((False, - 1), s) \<and> deallocate s st n = Inr (False, s)) \<and>
         (0 \<le> st \<and> st + n \<le> disk_size s \<longrightarrow>
            (\<exists>s'. allocate s st n = Inr ((True, st), s')) \<and>
            (\<exists>s'. deallocate s st n = Inr (True, s')))"
proof (intro conjI impI)
  assume "st < 0 \<or> disk_size s < st + n"
  then show "allocate s st n = Inr ((False, - 1), s)" by (auto simp: allocate_def)
next
  assume "st < 0 \<or> disk_size s < st + n"
  then show "deallocate s st n = Inr (False, s)" by (auto simp: deallocate_def)
next
  assume h: "0 \<le> st \<and> st + n \<le> disk_size s"
  have "\<forall>i\<in>set (py_range st (st + n)). bitmap s ! nat i \<noteq> 1" using assms(2) by simp
  with allocate_success[of s st n] assms(1) h
  show "\<exists>s'. allocate s st n = Inr ((True, st), s')" by blast
next
  assume h: "0 \<le> st \<and> st + n \<le> disk_size s"
  with deallocate_success[of s st n] assms(1)
  show "\<exists>s'. deallocate s st n = Inr (True, s')" by blast
qed

theorem nonpositive_count_only_range_checked_witness:
  "bitmap_sized (fresh_state 50) \<and> (0::int) \<le> 0 \<and>
   allocate (fresh_state 50) 51 0 = Inr ((False, - 1), fresh_state 50) \<and>
   deallocate (fresh_state 50) 51 0 = Inr (False, fresh_state 50) \<and>
   (\<exists>s'. allocate (fresh_state 50) 10 0 = Inr ((True, 10), s')) \<and>
   (\<exists>s'. deallocate (fresh_state 50) 10 0 = Inr (True, s'))"
proof -
  have f: "bitmap_sized (fresh_state 50)" by (simp add: bitmap_sized_def fresh_state_def)
  have z: "(0::int) \<le> 0" by simp
  from nonpositive_count_only_range_checked[OF f z, of 51]
       nonpositive_count_only_range_checked[OF f z, of 10] f
  show ?thesis by (simp add: fresh_state_def)
qed

section \<open>Blocks covered by a chain\<close>

lemma covered_Nil [simp]: "covered [] i = False"
  by (simp add: covered_def)

lemma covered_Cons [simp]: "covered (e # r) i = (covers e i \<or> covered r i)"
  by (simp add: covered_def)

lemma covers_FreeExtent [simp]: "covers (FreeExtent a l) i = (a \<le> i \<and> i < a + l)"
  by (simp add: covers_def)

lemma merge_next_covered:
  assumes "0 \<le> n" "\<forall>e\<in>set cs. 0 \<le> size' e" "merge_next st n cs = (new_extent, nxt)"
  shows "covered (new_extent # nxt) i = (covered cs i \<or> (st \<le> i \<and> i < st + n))"
    and "start new_extent = st" and "n \<le> size' new_extent" and "\<forall>e\<in>set nxt. 0 \<le> size' e"
  using assms by (cases cs; auto simp: covers_def split: if_splits)+

lemma merge_prev_covered:
  assumes "0 \<le> size' prev" "0 \<le> size' new_extent" "start new_extent = st"
  shows "covered (merge_prev st prev (new_extent, nxt)) i =
           (covers prev i \<or> covered (new_extent # nxt) i)"
  using assms by (auto simp: covers_def)

lemma walk_chain_covered:
  assumes "0 \<le> n" "0 \<le> size' prev" "\<forall>e\<in>set cs. 0 \<le> size' e"
  shows "covered (walk_chain st n prev cs) i =
           (covers prev i \<or> covered cs i \<or> (st \<le> i \<and> i < st + n))"
  using assms
proof (induction st n prev cs rule: walk_chain.induct)
  case (1 st n prev)
  obtain new_extent nxt where m: "merge_next st n [] = (new_extent, nxt)" by force
  have nn: "\<forall>e\<in>set ([]::FreeExtent list). 0 \<le> size' e" by simp
  from merge_next_covered(1)[OF "1.prems"(1) nn m, of i]
       merge_next_covered(2-4)[OF "1.prems"(1) nn m] "1.prems" m
  show ?case by (simp add: merge_prev_covered del: merge_prev.simps merge_next.simps)
next
  case (2 st n prev c rest)
  show ?case
  proof (cases "start c < st")
    case True
    with 2 show ?thesis by auto
  next
    case False
    obtain new_extent nxt where m: "merge_next st n (c # rest) = (new_extent, nxt)" by force
    have nn: "\<forall>e\<in>set (c # rest). 0 \<le> size' e" using "2.prems" by simp
    from merge_next_covered(1)[OF "2.prems"(1) nn m, of i]
         merge_next_covered(2-4)[OF "2.prems"(1) nn m] "2.prems" m False
    show ?thesis by (simp add: merge_prev_covered del: merge_prev.simps merge_next.simps)
  qed
qed

lemma deallocate_chain_covered:
  assumes "0 \<le> n" "\<forall>e\<in>set fl. 0 \<le> size' e"
  shows "covered (deallocate_chain st n fl) i = (covered fl i \<or> (st \<le> i \<and> i < st + n))"
proof (cases fl)
  case Nil
  then show ?thesis by simp
next
  case (Cons c rest)
  show ?thesis
  proof (cases "start c < st")
    case True
    with Cons assms walk_chain_covered[of n c rest st i] show ?thesis by auto
  next
    case False
    obtain new_extent nxt where m: "merge_next st n (c # rest) = (new_extent, nxt)" by force
    have nn: "\<forall>e\<in>set (c # rest). 0 \<le> size' e" using assms Cons by simp
    from merge_next_covered(1)[OF assms(1) nn m, of i] Cons m False
    show ?thesis by (simp del: merge_next.simps)
  qed
qed

section \<open>The scan of \<^verbatim>\<open>update_groups\<close>\<close>

lemma scan_inv_init: "scan_inv bm 0 [] False 0"
  by (simp add: scan_inv_def)

lemma scan_inv_free_closed:
  assumes "scan_inv bm k gs False gst" "0 \<le> k" "bm ! nat k = 0"
  shows "scan_inv bm (k + 1) gs True k"
proof -
  have left: "k = 0 \<or> bm ! nat (k - 1) \<noteq> 0"
  proof (cases "k = 0")
    case True then show ?thesis by simp
  next
    case k: False
    have "bm ! nat (k - 1) \<noteq> 0"
    proof
      assume z: "bm ! nat (k - 1) = 0"
      from k assms(2) have "k - 1 \<in> {0..<k}" by simp
      with assms(1) z obtain g where "g \<in> set gs" "fst g \<le> k - 1" "k - 1 < fst g + snd g"
        unfolding scan_inv_def by blast
      moreover from assms(1) \<open>g \<in> set gs\<close> have "fst g + snd g < k"
        unfolding scan_inv_def by blast
      ultimately show False by linarith
    qed
    then show ?thesis by simp
  qed
  have below: "\<forall>g\<in>set gs. fst g < k"
    using assms(1) unfolding scan_inv_def by force
  have closed: "\<forall>g\<in>set gs. fst g + snd g < k + 1"
    using assms(1) unfolding scan_inv_def by force
  have free: "\<forall>i\<in>{k..<k + 1}. bm ! nat i = 0"
  proof
    fix i assume "i \<in> {k..<k + 1}"
    then have "i = k" by simp
    with assms(3) show "bm ! nat i = 0" by simp
  qed
  have compl: "\<forall>i\<in>{0..<k + 1}. bm ! nat i = 0 \<longrightarrow>
          (\<exists>g\<in>set gs. fst g \<le> i \<and> i < fst g + snd g) \<or> (True \<and> k \<le> i)"
  proof (intro ballI impI)
    fix i assume i: "i \<in> {0..<k + 1}" and z: "bm ! nat i = 0"
    show "(\<exists>g\<in>set gs. fst g \<le> i \<and> i < fst g + snd g) \<or> (True \<and> k \<le> i)"
    proof (cases "i = k")
      case True then show ?thesis by simp
    next
      case False
      with i have "i \<in> {0..<k}" by simp
      with assms(1) z show ?thesis unfolding scan_inv_def by blast
    qed
  qed
  from assms(1) have old: "\<forall>g\<in>set gs. 0 \<le> fst g \<and> 0 < snd g \<and>
          (\<forall>i\<in>{fst g..<fst g + snd g}. bm ! nat i = 0) \<and>
          (fst g = 0 \<or> bm ! nat (fst g - 1) \<noteq> 0) \<and>
          bm ! nat (fst g + snd g) \<noteq> 0" and srt: "sorted_wrt (\<lambda>g h. fst g < fst h) gs"
    unfolding scan_inv_def by blast+
  show ?thesis
    unfolding scan_inv_def using old srt closed left below free compl assms(2) by simp
qed


lemma scan_inv_free_open:
  assumes "scan_inv bm k gs True gst" "bm ! nat k = 0"
  shows "scan_inv bm (k + 1) gs True gst"
proof -
  from assms(1) have old: "\<forall>g\<in>set gs. 0 \<le> fst g \<and> 0 < snd g \<and> fst g + snd g < k \<and>
          (\<forall>i\<in>{fst g..<fst g + snd g}. bm ! nat i = 0) \<and>
          (fst g = 0 \<or> bm ! nat (fst g - 1) \<noteq> 0) \<and>
          bm ! nat (fst g + snd g) \<noteq> 0" and srt: "sorted_wrt (\<lambda>g h. fst g < fst h) gs"
    and opn: "0 \<le> gst" "gst < k" "\<forall>i\<in>{gst..<k}. bm ! nat i = 0"
      "gst = 0 \<or> bm ! nat (gst - 1) \<noteq> 0" "\<forall>g\<in>set gs. fst g < gst"
    and cmp: "\<forall>i\<in>{0..<k}. bm ! nat i = 0 \<longrightarrow>
          (\<exists>g\<in>set gs. fst g \<le> i \<and> i < fst g + snd g) \<or> (True \<and> gst \<le> i)"
    unfolding scan_inv_def by blast+
  have closed: "\<forall>g\<in>set gs. fst g + snd g < k + 1" using old by force
  have free: "\<forall>i\<in>{gst..<k + 1}. bm ! nat i = 0"
  proof
    fix i assume "i \<in> {gst..<k + 1}"
    then have "i = k \<or> i \<in> {gst..<k}" by auto
    with assms(2) opn(3) show "bm ! nat i = 0" by auto
  qed
  have compl: "\<forall>i\<in>{0..<k + 1}. bm ! nat i = 0 \<longrightarrow>
          (\<exists>g\<in>set gs. fst g \<le> i \<and> i < fst g + snd g) \<or> (True \<and> gst \<le> i)"
  proof (intro ballI impI)
    fix i assume i: "i \<in> {0..<k + 1}" and z: "bm ! nat i = 0"
    show "(\<exists>g\<in>set gs. fst g \<le> i \<and> i < fst g + snd g) \<or> (True \<and> gst \<le> i)"
    proof (cases "i = k")
      case True with opn(2) show ?thesis by simp
    next
      case False
      with i have "i \<in> {0..<k}" by simp
      with cmp z show ?thesis by blast
    qed
  qed
  show ?thesis
    unfolding scan_inv_def using old srt closed opn(1,2,4,5) free compl by simp
qed

lemma scan_inv_used_closed:
  assumes "scan_inv bm k gs False gst" "bm ! nat k \<noteq> 0"
  shows "scan_inv bm (k + 1) gs False gst"
proof -
  from assms(1) have old: "\<forall>g\<in>set gs. 0 \<le> fst g \<and> 0 < snd g \<and> fst g + snd g < k \<and>
          (\<forall>i\<in>{fst g..<fst g + snd g}. bm ! nat i = 0) \<and>
          (fst g = 0 \<or> bm ! nat (fst g - 1) \<noteq> 0) \<and>
          bm ! nat (fst g + snd g) \<noteq> 0" and srt: "sorted_wrt (\<lambda>g h. fst g < fst h) gs"
    and cmp: "\<forall>i\<in>{0..<k}. bm ! nat i = 0 \<longrightarrow>
          (\<exists>g\<in>set gs. fst g \<le> i \<and> i < fst g + snd g) \<or> (False \<and> gst \<le> i)"
    unfolding scan_inv_def by blast+
  have closed: "\<forall>g\<in>set gs. fst g + snd g < k + 1" using old by force
  have compl: "\<forall>i\<in>{0..<k + 1}. bm ! nat i = 0 \<longrightarrow>
          (\<exists>g\<in>set gs. fst g \<le> i \<and> i < fst g + snd g) \<or> (False \<and> gst \<le> i)"
  proof (intro ballI impI)
    fix i assume i: "i \<in> {0..<k + 1}" and z: "bm ! nat i = 0"
    with assms(2) have "i \<noteq> k" by auto
    with i have "i \<in> {0..<k}" by simp
    with cmp z show "(\<exists>g\<in>set gs. fst g \<le> i \<and> i < fst g + snd g) \<or> (False \<and> gst \<le> i)"
      by blast
  qed
  show ?thesis
    unfolding scan_inv_def using old srt closed compl by simp
qed

lemma scan_inv_used_open:
  assumes "scan_inv bm k gs True gst" "bm ! nat k \<noteq> 0"
  shows "scan_inv bm (k + 1) (gs @ [(gst, k - gst)]) False gst"
proof -
  from assms(1) have old: "\<forall>g\<in>set gs. 0 \<le> fst g \<and> 0 < snd g \<and> fst g + snd g < k \<and>
          (\<forall>i\<in>{fst g..<fst g + snd g}. bm ! nat i = 0) \<and>
          (fst g = 0 \<or> bm ! nat (fst g - 1) \<noteq> 0) \<and>
          bm ! nat (fst g + snd g) \<noteq> 0" and srt: "sorted_wrt (\<lambda>g h. fst g < fst h) gs"
    and opn: "0 \<le> gst" "gst < k" "\<forall>i\<in>{gst..<k}. bm ! nat i = 0"
      "gst = 0 \<or> bm ! nat (gst - 1) \<noteq> 0" "\<forall>g\<in>set gs. fst g < gst"
    and cmp: "\<forall>i\<in>{0..<k}. bm ! nat i = 0 \<longrightarrow>
          (\<exists>g\<in>set gs. fst g \<le> i \<and> i < fst g + snd g) \<or> (True \<and> gst \<le> i)"
    unfolding scan_inv_def by blast+
  let ?gs = "gs @ [(gst, k - gst)]"
  have closed: "\<forall>g\<in>set ?gs. 0 \<le> fst g \<and> 0 < snd g \<and> fst g + snd g < k + 1 \<and>
          (\<forall>i\<in>{fst g..<fst g + snd g}. bm ! nat i = 0) \<and>
          (fst g = 0 \<or> bm ! nat (fst g - 1) \<noteq> 0) \<and>
          bm ! nat (fst g + snd g) \<noteq> 0"
  proof
    fix g assume "g \<in> set ?gs"
    then consider "g \<in> set gs" | "g = (gst, k - gst)" by auto
    then show "0 \<le> fst g \<and> 0 < snd g \<and> fst g + snd g < k + 1 \<and>
          (\<forall>i\<in>{fst g..<fst g + snd g}. bm ! nat i = 0) \<and>
          (fst g = 0 \<or> bm ! nat (fst g - 1) \<noteq> 0) \<and>
          bm ! nat (fst g + snd g) \<noteq> 0"
    proof cases
      case 1
      with old have "fst g + snd g < k" by blast
      then have "fst g + snd g < k + 1" by simp
      with old 1 show ?thesis by blast
    next
      case 2
      with opn assms(2) show ?thesis by simp
    qed
  qed
  have srt': "sorted_wrt (\<lambda>g h. fst g < fst h) ?gs"
    using srt opn(5) by (simp add: sorted_wrt_append)
  have compl: "\<forall>i\<in>{0..<k + 1}. bm ! nat i = 0 \<longrightarrow>
          (\<exists>g\<in>set ?gs. fst g \<le> i \<and> i < fst g + snd g) \<or> (False \<and> gst \<le> i)"
  proof (intro ballI impI)
    fix i assume i: "i \<in> {0..<k + 1}" and z: "bm ! nat i = 0"
    with assms(2) have "i \<noteq> k" by auto
    with i have ik: "i \<in> {0..<k}" by simp
    with cmp z consider g where "g \<in> set gs" "fst g \<le> i" "i < fst g + snd g" | "gst \<le> i"
      by blast
    then have "\<exists>g\<in>set ?gs. fst g \<le> i \<and> i < fst g + snd g"
    proof cases
      case 1 then show ?thesis by auto
    next
      case 2
      with ik have "fst (gst, k - gst) \<le> i \<and> i < fst (gst, k - gst) + snd (gst, k - gst)" by simp
      then show ?thesis by (intro bexI[of _ "(gst, k - gst)"]) simp_all
    qed
    then show "(\<exists>g\<in>set ?gs. fst g \<le> i \<and> i < fst g + snd g) \<or> (False \<and> gst \<le> i)" by simp
  qed
  show ?thesis
    unfolding scan_inv_def using closed srt' compl by simp
qed

lemma scan_inv_final:
  assumes "scan_inv bm N gs ing gst"
  shows "maximal_free_runs bm N (if ing then gs @ [(gst, N - gst)] else gs)"
proof (cases ing)
  case False
  with assms have old: "\<forall>g\<in>set gs. 0 \<le> fst g \<and> 0 < snd g \<and> fst g + snd g < N \<and>
          (\<forall>i\<in>{fst g..<fst g + snd g}. bm ! nat i = 0) \<and>
          (fst g = 0 \<or> bm ! nat (fst g - 1) \<noteq> 0) \<and>
          bm ! nat (fst g + snd g) \<noteq> 0" and srt: "sorted_wrt (\<lambda>g h. fst g < fst h) gs"
    and cmp: "\<forall>i\<in>{0..<N}. bm ! nat i = 0 \<longrightarrow>
          (\<exists>g\<in>set gs. fst g \<le> i \<and> i < fst g + snd g)"
    unfolding scan_inv_def by blast+
  have "\<forall>g\<in>set gs. 0 \<le> fst g \<and> 0 < snd g \<and> fst g + snd g \<le> N \<and>
          (\<forall>i\<in>{fst g..<fst g + snd g}. bm ! nat i = 0) \<and>
          (fst g = 0 \<or> bm ! nat (fst g - 1) \<noteq> 0) \<and>
          (fst g + snd g = N \<or> bm ! nat (fst g + snd g) \<noteq> 0)"
    using old by force
  with srt cmp False show ?thesis by (simp add: maximal_free_runs_def)
next
  case True
  with assms have old: "\<forall>g\<in>set gs. 0 \<le> fst g \<and> 0 < snd g \<and> fst g + snd g < N \<and>
          (\<forall>i\<in>{fst g..<fst g + snd g}. bm ! nat i = 0) \<and>
          (fst g = 0 \<or> bm ! nat (fst g - 1) \<noteq> 0) \<and>
          bm ! nat (fst g + snd g) \<noteq> 0" and srt: "sorted_wrt (\<lambda>g h. fst g < fst h) gs"
    and opn: "0 \<le> gst" "gst < N" "\<forall>i\<in>{gst..<N}. bm ! nat i = 0"
      "gst = 0 \<or> bm ! nat (gst - 1) \<noteq> 0" "\<forall>g\<in>set gs. fst g < gst"
    and cmp: "\<forall>i\<in>{0..<N}. bm ! nat i = 0 \<longrightarrow>
          (\<exists>g\<in>set gs. fst g \<le> i \<and> i < fst g + snd g) \<or> (True \<and> gst \<le> i)"
    unfolding scan_inv_def by blast+
  let ?gs = "gs @ [(gst, N - gst)]"
  have runs: "\<forall>g\<in>set ?gs. 0 \<le> fst g \<and> 0 < snd g \<and> fst g + snd g \<le> N \<and>
          (\<forall>i\<in>{fst g..<fst g + snd g}. bm ! nat i = 0) \<and>
          (fst g = 0 \<or> bm ! nat (fst g - 1) \<noteq> 0) \<and>
          (fst g + snd g = N \<or> bm ! nat (fst g + snd g) \<noteq> 0)"
  proof
    fix g assume "g \<in> set ?gs"
    then consider "g \<in> set gs" | "g = (gst, N - gst)" by auto
    then show "0 \<le> fst g \<and> 0 < snd g \<and> fst g + snd g \<le> N \<and>
          (\<forall>i\<in>{fst g..<fst g + snd g}. bm ! nat i = 0) \<and>
          (fst g = 0 \<or> bm ! nat (fst g - 1) \<noteq> 0) \<and>
          (fst g + snd g = N \<or> bm ! nat (fst g + snd g) \<noteq> 0)"
    proof cases
      case 1
      with old have "fst g + snd g < N" by blast
      then have "fst g + snd g \<le> N" by simp
      with old 1 show ?thesis by blast
    next
      case 2
      with opn show ?thesis by simp
    qed
  qed
  have srt': "sorted_wrt (\<lambda>g h. fst g < fst h) ?gs"
    using srt opn(5) by (simp add: sorted_wrt_append)
  have compl: "\<forall>i\<in>{0..<N}. bm ! nat i = 0 \<longrightarrow>
          (\<exists>g\<in>set ?gs. fst g \<le> i \<and> i < fst g + snd g)"
  proof (intro ballI impI)
    fix i assume i: "i \<in> {0..<N}" and z: "bm ! nat i = 0"
    with cmp consider g where "g \<in> set gs" "fst g \<le> i" "i < fst g + snd g" | "gst \<le> i"
      by blast
    then show "\<exists>g\<in>set ?gs. fst g \<le> i \<and> i < fst g + snd g"
    proof cases
      case 1 then show ?thesis by auto
    next
      case 2
      with i have "fst (gst, N - gst) \<le> i \<and> i < fst (gst, N - gst) + snd (gst, N - gst)" by simp
      then show ?thesis by (intro bexI[of _ "(gst, N - gst)"]) simp_all
    qed
  qed
  from runs srt' compl True show ?thesis by (simp add: maximal_free_runs_def)
qed

lemma scan_bitmap_runs:
  assumes "N \<le> int (length bm)" "0 \<le> k" "k \<le> N" "scan_inv bm k gs ing gst"
  shows "\<exists>gs' ing' gst'. scan_bitmap bm (py_range k N) (gs, ing, gst) = Inr (gs', ing', gst') \<and>
           scan_inv bm N gs' ing' gst'"
  using assms
proof (induction "nat (N - k)" arbitrary: k gs ing gst)
  case 0
  then have "k = N" by simp
  with 0 show ?case by simp
next
  case (Suc m)
  then have kN: "k < N" by linarith
  then have rng: "py_range k N = k # py_range (k + 1) N" by (rule py_range_rec)
  have get: "bitmap_get bm k = Inr (bm ! nat k)" using Suc.prems kN by simp
  have m: "m = nat (N - (k + 1))" using Suc.hyps(2) by linarith
  have k1: "0 \<le> k + 1" "k + 1 \<le> N" using Suc.prems kN by simp_all
  show ?case
  proof (cases "bm ! nat k = 0")
    case True
    show ?thesis
    proof (cases ing)
      case ing: True
      with Suc.prems True have "scan_inv bm (k + 1) gs True gst" by (simp add: scan_inv_free_open)
      from Suc.hyps(1)[OF m Suc.prems(1) k1 this] rng get True ing show ?thesis by simp
    next
      case ing: False
      with Suc.prems True have "scan_inv bm (k + 1) gs True k" by (simp add: scan_inv_free_closed)
      from Suc.hyps(1)[OF m Suc.prems(1) k1 this] rng get True ing show ?thesis by simp
    qed
  next
    case False
    show ?thesis
    proof (cases ing)
      case ing: True
      with Suc.prems False have "scan_inv bm (k + 1) (gs @ [(gst, k - gst)]) False gst"
        by (simp add: scan_inv_used_open)
      from Suc.hyps(1)[OF m Suc.prems(1) k1 this] rng get False ing show ?thesis by simp
    next
      case ing: False
      with Suc.prems False have "scan_inv bm (k + 1) gs False gst"
        by (simp add: scan_inv_used_closed)
      from Suc.hyps(1)[OF m Suc.prems(1) k1 this] rng get False ing show ?thesis by simp
    qed
  qed
qed

lemma update_groups_runs:
  assumes "nat (disk_size s) \<le> length (bitmap s)"
  shows "\<exists>gs. update_groups s = Inr (s\<lparr>groups := gs\<rparr>) \<and>
           maximal_free_runs (bitmap s) (disk_size s) gs"
proof (cases "0 \<le> disk_size s")
  case True
  with assms have "disk_size s \<le> int (length (bitmap s))" by linarith
  from scan_bitmap_runs[OF this _ True scan_inv_init] obtain gs ing gst where
    sc: "scan_bitmap (bitmap s) (py_range 0 (disk_size s)) ([], False, 0) = Inr (gs, ing, gst)"
    and inv: "scan_inv (bitmap s) (disk_size s) gs ing gst" by auto
  from scan_inv_final[OF inv] sc show ?thesis
    by (auto simp: update_groups_def)
next
  case False
  then have "py_range 0 (disk_size s) = []" by simp
  moreover have "maximal_free_runs (bitmap s) (disk_size s) []"
    using False by (simp add: maximal_free_runs_def)
  ultimately show ?thesis by (auto simp: update_groups_def intro!: exI[of _ "[]"])
qed

text \<open>
  C8. For a bitmap with one flag per block, \<^verbatim>\<open>update_groups\<close> returns, and the
  groups it stores are exactly the maximal runs of free blocks as (start, length)
  pairs in ascending order of start; disk size, bitmap and free list are
  unchanged.
\<close>

theorem update_groups_maximal_runs:
  assumes "bitmap_sized s"
  shows "\<exists>gs. update_groups s = Inr (s\<lparr>groups := gs\<rparr>) \<and>
           maximal_free_runs (bitmap s) (disk_size s) gs"
  using assms update_groups_runs[of s] by (simp add: bitmap_sized_def)

theorem update_groups_maximal_runs_witness:
  "bitmap_sized \<lparr>disk_size = 7, bitmap = [0, 0, 1, 0, 1, 1, 0],
       free_list = [FreeExtent 0 2, FreeExtent 3 1, FreeExtent 6 1], groups = []\<rparr> \<and>
   update_groups \<lparr>disk_size = 7, bitmap = [0, 0, 1, 0, 1, 1, 0],
       free_list = [FreeExtent 0 2, FreeExtent 3 1, FreeExtent 6 1], groups = []\<rparr> =
     Inr \<lparr>disk_size = 7, bitmap = [0, 0, 1, 0, 1, 1, 0],
       free_list = [FreeExtent 0 2, FreeExtent 3 1, FreeExtent 6 1],
       groups = [(0, 2), (3, 1), (6, 1)]\<rparr> \<and>
   maximal_free_runs [0, 0, 1, 0, 1, 1, 0] 7 [(0, 2), (3, 1), (6, 1)]"
proof -
  let ?s = "\<lparr>disk_size = 7, bitmap = [0, 0, 1, 0, 1, 1, 0],
       free_list = [FreeExtent 0 2, FreeExtent 3 1, FreeExtent 6 1], groups = []\<rparr>"
  have b: "bitmap_sized ?s" by (simp add: bitmap_sized_def)
  have u: "update_groups ?s = Inr (?s\<lparr>groups := [(0, 2), (3, 1), (6, 1)]\<rparr>)" by code_simp
  from update_groups_maximal_runs[OF b] obtain gs where
    g: "update_groups ?s = Inr (?s\<lparr>groups := gs\<rparr>)"
    and m: "maximal_free_runs (bitmap ?s) (disk_size ?s) gs" by blast
  from u g have "gs = [(0, 2), (3, 1), (6, 1)]" by simp
  with m b u show ?thesis by simp
qed

section \<open>Maximal runs are unique\<close>

lemma maximal_free_runs_subset:
  assumes "maximal_free_runs bm N gs" "maximal_free_runs bm N hs"
  shows "set gs \<subseteq> set hs"
proof
  fix g assume g: "g \<in> set gs"
  from assms(1) g have gp: "0 \<le> fst g" "0 < snd g" "fst g + snd g \<le> N"
    "\<forall>i\<in>{fst g..<fst g + snd g}. bm ! nat i = 0"
    "fst g = 0 \<or> bm ! nat (fst g - 1) \<noteq> 0"
    "fst g + snd g = N \<or> bm ! nat (fst g + snd g) \<noteq> 0"
    unfolding maximal_free_runs_def by auto
  from gp have "fst g \<in> {0..<N}" "bm ! nat (fst g) = 0" by auto
  with assms(2) obtain h where h: "h \<in> set hs" "fst h \<le> fst g" "fst g < fst h + snd h"
    unfolding maximal_free_runs_def by auto
  from assms(2) h(1) have hp: "0 \<le> fst h" "0 < snd h" "fst h + snd h \<le> N"
    "\<forall>i\<in>{fst h..<fst h + snd h}. bm ! nat i = 0"
    "fst h = 0 \<or> bm ! nat (fst h - 1) \<noteq> 0"
    "fst h + snd h = N \<or> bm ! nat (fst h + snd h) \<noteq> 0"
    unfolding maximal_free_runs_def by auto
  have st: "fst h = fst g"
  proof (rule ccontr)
    assume "fst h \<noteq> fst g"
    with h have lt: "fst h < fst g" by simp
    then have "fst g - 1 \<in> {fst h..<fst h + snd h}" using h by simp
    with hp(4) have "bm ! nat (fst g - 1) = 0" by blast
    with gp(5) lt hp(1) show False by auto
  qed
  have en: "fst h + snd h = fst g + snd g"
  proof (rule ccontr)
    assume ne: "fst h + snd h \<noteq> fst g + snd g"
    show False
    proof (cases "fst h + snd h < fst g + snd g")
      case True
      then have "fst h + snd h \<in> {fst g..<fst g + snd g}" using st hp(2) by simp
      with gp(4) have "bm ! nat (fst h + snd h) = 0" by blast
      with hp(6) True gp(3) show False by auto
    next
      case False
      with ne have "fst g + snd g \<in> {fst h..<fst h + snd h}" using st gp(2) by simp
      with hp(4) have "bm ! nat (fst g + snd g) = 0" by blast
      with gp(6) False ne hp(3) show False by auto
    qed
  qed
  from st en have "h = g" by (simp add: prod_eq_iff)
  with h(1) show "g \<in> set hs" by simp
qed

lemma maximal_free_runs_unique:
  assumes "maximal_free_runs bm N gs" "maximal_free_runs bm N hs"
  shows "gs = hs"
proof -
  have s: "set gs = set hs"
    using maximal_free_runs_subset[OF assms] maximal_free_runs_subset[OF assms(2,1)] by blast
  from assms have sg: "sorted_wrt (\<lambda>g h. fst g < fst h) gs" and sh: "sorted_wrt (\<lambda>g h. fst g < fst h) hs"
    unfolding maximal_free_runs_def by blast+
  then have mg: "sorted_wrt (<) (map fst gs)" and mh: "sorted_wrt (<) (map fst hs)"
    by (simp_all add: sorted_wrt_map)
  from s have "set (map fst gs) = set (map fst hs)" by simp
  with mg mh have eq: "map fst gs = map fst hs" by (metis strict_sorted_equal)
  from mg have "distinct (map fst gs)" by (simp add: strict_sorted_iff)
  then have "inj_on fst (set gs)" by (simp add: distinct_map)
  with s have "inj_on fst (set gs \<union> set hs)" by simp
  with eq show ?thesis by (simp add: inj_on_map_eq_map)
qed

section \<open>The chain under \<^verbatim>\<open>allocate\<close>\<close>

lemma separated_Nil [simp]: "separated []"
  by (simp add: separated_def)

lemma separated_Cons [simp]:
  "separated (c # r) = ((\<forall>y\<in>set r. start c + size' c < start y) \<and> separated r)"
  by (simp add: separated_def)

lemma extents_on_Nil [simp]: "extents_on N []"
  by (simp add: extents_on_def)

lemma extents_on_Cons [simp]:
  "extents_on N (c # r) =
     ((0 < size' c \<and> 0 \<le> start c \<and> start c + size' c \<le> N) \<and> extents_on N r)"
  by (simp add: extents_on_def)

lemma covered_lower: "covered r i \<Longrightarrow> \<forall>y\<in>set r. b < start y \<Longrightarrow> b < i"
  by (force simp: covered_def covers_def)

lemma covered_on: "extents_on N r \<Longrightarrow> covered r i \<Longrightarrow> 0 \<le> i \<and> i < N"
  by (force simp: covered_def covers_def extents_on_def)

lemma allocate_chain_starts:
  "0 \<le> n \<Longrightarrow> e \<in> set (allocate_chain st n fl) \<Longrightarrow> \<exists>e'\<in>set fl. start e' \<le> start e"
proof (induction fl)
  case Nil
  then show ?case by simp
next
  case (Cons c rest)
  then show ?case by (fastforce split: if_splits)
qed

lemma allocate_chain_inv:
  assumes "separated fl" "extents_on N fl" "1 \<le> n" "\<forall>i\<in>{st..<st + n}. covered fl i"
  shows "separated (allocate_chain st n fl) \<and> extents_on N (allocate_chain st n fl) \<and>
         (\<forall>i. covered (allocate_chain st n fl) i = (covered fl i \<and> \<not> (st \<le> i \<and> i < st + n)))"
  using assms
proof (induction fl)
  case Nil
  from Nil.prems(3) have "st \<in> {st..<st + n}" by simp
  with Nil.prems(4) have "covered [] st" by blast
  then show ?case by simp
next
  case (Cons c rest)
  from Cons.prems have sep: "\<forall>y\<in>set rest. start c + size' c < start y" "separated rest"
    and ok: "0 < size' c" "0 \<le> start c" "start c + size' c \<le> N" "extents_on N rest"
    by simp_all
  have beyond: "\<And>i. covered rest i \<Longrightarrow> start c + size' c < i"
    using sep(1) by (rule covered_lower[rotated])
  show ?case
  proof (cases "start c \<le> st \<and> st + n \<le> start c + size' c")
    case True
    have cov: "\<forall>i. covered (allocate_chain st n (c # rest)) i =
                 (covered (c # rest) i \<and> \<not> (st \<le> i \<and> i < st + n))"
    proof
      fix i
      from beyond[of i] True Cons.prems(3)
      show "covered (allocate_chain st n (c # rest)) i =
                 (covered (c # rest) i \<and> \<not> (st \<le> i \<and> i < st + n))"
        by (auto simp: covers_def)
    qed
    have "separated (allocate_chain st n (c # rest))"
      using True sep Cons.prems(3) by auto
    moreover have "extents_on N (allocate_chain st n (c # rest))"
      using True ok Cons.prems(3) by auto
    ultimately show ?thesis using cov by blast
  next
    case False
    have nocover: "\<And>i. st \<le> i \<Longrightarrow> i < st + n \<Longrightarrow> \<not> covers c i"
    proof
      fix i assume i: "st \<le> i" "i < st + n" and ci: "covers c i"
      show False
      proof (cases "start c \<le> st")
        case False
        let ?j = "start c - 1"
        from False i ci have j: "?j \<in> {st..<st + n}" by (auto simp: covers_def)
        with Cons.prems(4) have "covered (c # rest) ?j" by blast
        then have "covered rest ?j" by (simp add: covers_def)
        from beyond[OF this] ok(1) show False by simp
      next
        case True
        with \<open>\<not> (start c \<le> st \<and> st + n \<le> start c + size' c)\<close>
        have lt: "start c + size' c < st + n" by simp
        let ?j = "start c + size' c"
        from lt i ci have j: "?j \<in> {st..<st + n}" by (auto simp: covers_def)
        with Cons.prems(4) have "covered (c # rest) ?j" by blast
        then have "covered rest ?j" by (simp add: covers_def)
        from beyond[OF this] show False by simp
      qed
    qed
    have "\<forall>i\<in>{st..<st + n}. covered rest i"
    proof
      fix i assume i: "i \<in> {st..<st + n}"
      with Cons.prems(4) have "covered (c # rest) i" by blast
      with nocover[of i] i show "covered rest i" by simp
    qed
    from Cons.IH[OF sep(2) ok(4) Cons.prems(3) this]
    have ih: "separated (allocate_chain st n rest)" "extents_on N (allocate_chain st n rest)"
      "\<forall>i. covered (allocate_chain st n rest) i = (covered rest i \<and> \<not> (st \<le> i \<and> i < st + n))"
      by blast+
    have "\<not> (start c \<le> st \<and> start c + size' c \<ge> st + n)" using False by simp
    then have res: "allocate_chain st n (c # rest) = c # allocate_chain st n rest"
      by (simp only: allocate_chain.simps if_False)
    have "\<forall>y\<in>set (allocate_chain st n rest). start c + size' c < start y"
    proof
      fix y assume "y \<in> set (allocate_chain st n rest)"
      with allocate_chain_starts[of n y st rest] Cons.prems(3)
      obtain e' where "e' \<in> set rest" "start e' \<le> start y" by auto
      with sep(1) show "start c + size' c < start y" by force
    qed
    with ih(1) have s: "separated (c # allocate_chain st n rest)" by simp
    have e: "extents_on N (c # allocate_chain st n rest)" using ok ih(2) by simp
    have "\<forall>i. covered (c # allocate_chain st n rest) i =
                 (covered (c # rest) i \<and> \<not> (st \<le> i \<and> i < st + n))"
      using ih(3) nocover by auto
    with s e res show ?thesis by simp
  qed
qed

section \<open>The chain under \<^verbatim>\<open>deallocate\<close>\<close>

lemma merge_next_inv:
  assumes "separated cs" "extents_on N cs" "cs = [] \<or> st \<le> start (hd cs)"
      and "1 \<le> n" "0 \<le> st" "st + n \<le> N" "\<forall>i\<in>{st..<st + n}. \<not> covered cs i"
      and "merge_next st n cs = (new_extent, nxt)"
  shows "separated (new_extent # nxt) \<and> extents_on N (new_extent # nxt) \<and>
         start new_extent = st"
proof (cases cs)
  case Nil
  with assms show ?thesis by auto
next
  case (Cons c rest)
  with assms have c: "st \<le> start c" "0 < size' c" "start c + size' c \<le> N"
    and sep: "\<forall>y\<in>set rest. start c + size' c < start y" "separated rest"
    and ok: "extents_on N rest" by simp_all
  have "covered cs (start c)" using Cons c(2) by (simp add: covers_def)
  with assms(7) have "start c \<notin> {st..<st + n}" by blast
  with c(1) have far: "st + n \<le> start c" by simp
  show ?thesis
  proof (cases "start c = st + n")
    case True
    with assms(8) Cons have "new_extent = FreeExtent st (n + size' c)" "nxt = rest" by simp_all
    moreover have "\<forall>y\<in>set rest. st + (n + size' c) < start y" using sep(1) True by force
    ultimately show ?thesis using True c sep(2) ok assms(4,5) by simp
  next
    case False
    with assms(8) Cons have "new_extent = FreeExtent st n" "nxt = c # rest" by simp_all
    moreover have "\<forall>y\<in>set rest. st + n < start y" using sep(1) far c(2) by force
    ultimately show ?thesis using False far c sep ok assms(4,5,6) by simp
  qed
qed

lemma merge_prev_inv:
  assumes "0 < size' prev" "0 \<le> start prev" "start prev + size' prev \<le> st"
      and "separated (new_extent # nxt)" "extents_on N (new_extent # nxt)"
      and "start new_extent = st"
  shows "separated (merge_prev st prev (new_extent, nxt)) \<and>
         extents_on N (merge_prev st prev (new_extent, nxt)) \<and>
         (\<forall>y\<in>set (merge_prev st prev (new_extent, nxt)). start prev \<le> start y)"
proof -
  have far: "\<forall>y\<in>set nxt. st < start y"
  proof
    fix y assume "y \<in> set nxt"
    with assms(4) have "start new_extent + size' new_extent < start y" by simp
    with assms(5,6) show "st < start y" by simp
  qed
  have far': "\<forall>y\<in>set nxt. st + size' new_extent < start y"
    using assms(4,6) by simp
  show ?thesis
  proof (cases "start prev + size' prev = st")
    case True
    have "\<forall>y\<in>set nxt. start prev + (size' prev + size' new_extent) < start y"
      "\<forall>y\<in>set nxt. start prev \<le> start y"
      using far far' True assms(1) by force+
    with True assms show ?thesis by simp
  next
    case False
    have "\<forall>y\<in>set nxt. start prev + size' prev < start y" "\<forall>y\<in>set nxt. start prev \<le> start y"
      using far assms(1,3) by force+
    with False assms show ?thesis by simp
  qed
qed

lemma walk_chain_inv:
  assumes "separated (prev # cs)" "extents_on N (prev # cs)" "start prev < st"
      and "1 \<le> n" "0 \<le> st" "st + n \<le> N" "\<forall>i\<in>{st..<st + n}. \<not> covered (prev # cs) i"
  shows "separated (walk_chain st n prev cs) \<and> extents_on N (walk_chain st n prev cs) \<and>
         (\<forall>y\<in>set (walk_chain st n prev cs). start prev \<le> start y)"
  using assms
proof (induction st n prev cs rule: walk_chain.induct)
  case (1 st n prev)
  from "1.prems"(4) have "st \<in> {st..<st + n}" by simp
  with "1.prems"(7) have "\<not> covers prev st" by auto
  with "1.prems"(3) have pe: "start prev + size' prev \<le> st" by (simp add: covers_def)
  obtain new_extent nxt where m: "merge_next st n [] = (new_extent, nxt)" by force
  have "separated (new_extent # nxt) \<and> extents_on N (new_extent # nxt) \<and> start new_extent = st"
    by (rule merge_next_inv[OF _ _ _ "1.prems"(4,5,6) _ m]) simp_all
  then have r: "separated (new_extent # nxt)" "extents_on N (new_extent # nxt)"
    "start new_extent = st" by blast+
  from "1.prems"(2) have ok: "0 < size' prev" "0 \<le> start prev" by simp_all
  have w: "walk_chain st n prev [] = merge_prev st prev (new_extent, nxt)"
    using m by (simp del: merge_prev.simps merge_next.simps)
  from merge_prev_inv[OF ok pe r] show ?case unfolding w .
next
  case (2 st n prev c rest)
  from "2.prems"(1,2) have sep: "\<forall>y\<in>set (c # rest). start prev + size' prev < start y"
    "separated (c # rest)" and ok: "0 < size' prev" "0 \<le> start prev" "extents_on N (c # rest)"
    by simp_all
  have unc: "\<forall>i\<in>{st..<st + n}. \<not> covered (c # rest) i" using "2.prems"(7) by simp
  show ?case
  proof (cases "start c < st")
    case True
    from "2.IH"[OF True sep(2) ok(3) True "2.prems"(4,5,6) unc]
    have ih: "separated (walk_chain st n c rest)" "extents_on N (walk_chain st n c rest)"
      "\<forall>y\<in>set (walk_chain st n c rest). start c \<le> start y" by blast+
    from sep(1) have pc: "start prev + size' prev < start c" by simp
    with ih(3) have "\<forall>y\<in>set (walk_chain st n c rest). start prev + size' prev < start y"
      by force
    moreover from this ok(1) have "\<forall>y\<in>set (walk_chain st n c rest). start prev \<le> start y"
      by force
    ultimately show ?thesis using True ih "2.prems"(2) by simp
  next
    case False
    from "2.prems"(4) have "st \<in> {st..<st + n}" by simp
    with "2.prems"(7) have "\<not> covers prev st" by auto
    with "2.prems"(3) have pe: "start prev + size' prev \<le> st" by (simp add: covers_def)
    obtain new_extent nxt where m: "merge_next st n (c # rest) = (new_extent, nxt)" by force
    have hd: "c # rest = [] \<or> st \<le> start (hd (c # rest))" using False by simp
    from merge_next_inv[OF sep(2) ok(3) hd "2.prems"(4,5,6) unc m]
    have r: "separated (new_extent # nxt)" "extents_on N (new_extent # nxt)"
      "start new_extent = st" by blast+
    have w: "walk_chain st n prev (c # rest) = merge_prev st prev (new_extent, nxt)"
      using m False by (simp del: merge_prev.simps merge_next.simps)
    from merge_prev_inv[OF ok(1,2) pe r] show ?thesis unfolding w .
  qed
qed

lemma deallocate_chain_inv:
  assumes "separated fl" "extents_on N fl"
      and "1 \<le> n" "0 \<le> st" "st + n \<le> N" "\<forall>i\<in>{st..<st + n}. \<not> covered fl i"
  shows "separated (deallocate_chain st n fl) \<and> extents_on N (deallocate_chain st n fl)"
proof (cases fl)
  case Nil
  with assms show ?thesis by simp
next
  case (Cons c rest)
  show ?thesis
  proof (cases "start c < st")
    case True
    with walk_chain_inv[of c rest N st n] assms Cons show ?thesis by simp
  next
    case False
    obtain new_extent nxt where m: "merge_next st n (c # rest) = (new_extent, nxt)" by force
    have hd: "c # rest = [] \<or> st \<le> start (hd (c # rest))" using False by simp
    from merge_next_inv[OF _ _ hd assms(3,4,5) _ m] assms(1,2,6) Cons
    have r: "separated (new_extent # nxt)" "extents_on N (new_extent # nxt)" by blast+
    have "deallocate_chain st n fl = new_extent # nxt"
      using Cons False m by (simp del: merge_next.simps)
    with r show ?thesis by simp
  qed
qed

section \<open>The invariants from a separated chain that matches the bitmap\<close>

lemma separated_pairwise:
  "separated fl \<Longrightarrow> e \<in> set fl \<Longrightarrow> e' \<in> set fl \<Longrightarrow>
   e = e' \<or> start e + size' e < start e' \<or> start e' + size' e' < start e"
  by (induction fl) auto

lemma separated_inv2:
  assumes "separated (free_list s)" "extents_on N (free_list s)"
  shows "inv2 s"
  unfolding inv2_def
proof (rule sorted_wrt_mono_rel[OF _ assms(1)[unfolded separated_def]])
  fix a b assume "a \<in> set (free_list s)" "b \<in> set (free_list s)"
    and "start a + size' a < start b"
  with assms(2) show "\<not> overlap a b \<and> start a < start b \<and> start a + size' a < start b"
    by (auto simp: overlap_def extents_on_def)
qed

lemma inv2_separated: "inv2 s \<Longrightarrow> separated (free_list s)"
  unfolding inv2_def separated_def by (erule sorted_wrt_mono_rel[rotated]) simp

lemma count_list_filter: "count_list xs x = length (filter (\<lambda>y. y = x) xs)"
  by (induction xs) auto

lemma sum_sizes_card:
  assumes "separated fl" "extents_on N fl"
  shows "finite {i. covered fl i} \<and> sum_list (map size' fl) = int (card {i. covered fl i})"
  using assms
proof (induction fl)
  case Nil
  then show ?case by simp
next
  case (Cons c rest)
  then have ih: "finite {i. covered rest i}"
    "sum_list (map size' rest) = int (card {i. covered rest i})" by simp_all
  have c: "{i. covers c i} = {start c..<start c + size' c}" by (auto simp: covers_def)
  have split: "{i. covered (c # rest) i} = {start c..<start c + size' c} \<union> {i. covered rest i}"
    using c by auto
  have disj: "{start c..<start c + size' c} \<inter> {i. covered rest i} = {}"
  proof -
    have "\<And>i. covered rest i \<Longrightarrow> start c + size' c < i"
      using Cons.prems(1) by (auto intro: covered_lower)
    then show ?thesis by force
  qed
  have "card {i. covered (c # rest) i} = card {start c..<start c + size' c} + card {i. covered rest i}"
    unfolding split using ih(1) disj by (intro card_Un_disjoint) simp_all
  moreover have "0 < size' c" using Cons.prems(2) by simp
  ultimately show ?case using ih split by simp
qed

lemma separated_inv3:
  assumes "well_formed s" "inv1 s" "separated (free_list s)" "0 \<le> disk_size s"
  shows "inv3 s"
proof -
  let ?N = "disk_size s" and ?bm = "bitmap s" and ?fl = "free_list s"
  let ?C = "{i. covered ?fl i}"
  from assms(1) have len: "length ?bm = nat ?N" and ext: "extents_on ?N ?fl"
    by (simp_all add: well_formed_def bitmap_sized_def extents_on_def)
  from sum_sizes_card[OF assms(3) ext] have fin: "finite ?C"
    and sum: "sum_list (map size' ?fl) = int (card ?C)" by simp_all
  have sub: "?C \<subseteq> {0..<?N}" using covered_on[OF ext] by auto
  have "{k. k < length ?bm \<and> ?bm ! k = 1} = nat ` ({0..<?N} - ?C)"
  proof (intro set_eqI iffI)
    fix k assume "k \<in> {k. k < length ?bm \<and> ?bm ! k = 1}"
    then have k: "k < nat ?N" "?bm ! nat (int k) = 1" using len by simp_all
    then have "int k \<in> set (py_range 0 ?N)" by simp
    with assms(2) k(2) have "\<not> covered ?fl (int k)" unfolding inv1_def by blast
    with k(1) have "int k \<in> {0..<?N} - ?C" by simp
    then have "nat (int k) \<in> nat ` ({0..<?N} - ?C)" by (rule imageI)
    then show "k \<in> nat ` ({0..<?N} - ?C)" by simp
  next
    fix k assume "k \<in> nat ` ({0..<?N} - ?C)"
    then obtain i where "k = nat i" "i \<in> {0..<?N} - ?C" by (rule imageE)
    then have i: "k = nat i" "0 \<le> i" "i < ?N" "\<not> covered ?fl i" by simp_all
    then have "i \<in> set (py_range 0 ?N)" by simp
    with assms(2) i(4) have "?bm ! nat i = 1" unfolding inv1_def by blast
    with i len show "k \<in> {k. k < length ?bm \<and> ?bm ! k = 1}" by simp
  qed
  moreover have "inj_on nat ({0..<?N} - ?C)" by (rule inj_onI) (simp, linarith)
  ultimately have "card {k. k < length ?bm \<and> ?bm ! k = 1} = card ({0..<?N} - ?C)"
    by (simp add: card_image)
  also have "\<dots> = card {0..<?N} - card ?C" using sub fin by (simp add: card_Diff_subset)
  finally have cnt: "count_list ?bm 1 = nat ?N - card ?C"
    by (simp add: count_list_filter length_filter_conv_card)
  have "card ?C \<le> card {0..<?N}" using sub by (intro card_mono) simp_all
  then have "card ?C \<le> nat ?N" by simp
  with cnt sum assms(4) show ?thesis by (simp add: inv3_def)
qed

lemma separated_runs:
  assumes "well_formed s" "inv1 s" "separated (free_list s)"
  shows "maximal_free_runs (bitmap s) (disk_size s) (extent_pairs (free_list s))"
proof -
  let ?N = "disk_size s" and ?bm = "bitmap s" and ?fl = "free_list s"
  from assms(1) have len: "length ?bm = nat ?N" and ext: "extents_on ?N ?fl"
    and bits: "set ?bm \<subseteq> {0, 1}"
    by (simp_all add: well_formed_def bitmap_sized_def extents_on_def)
  have bit: "\<And>i. 0 \<le> i \<Longrightarrow> i < ?N \<Longrightarrow> ?bm ! nat i = 0 \<or> ?bm ! nat i = 1"
  proof -
    fix i assume "0 \<le> i" "i < ?N"
    then have "nat i < length ?bm" using len by simp
    then have "?bm ! nat i \<in> set ?bm" by (rule nth_mem)
    with bits show "?bm ! nat i = 0 \<or> ?bm ! nat i = 1" by auto
  qed
  have free_iff: "\<And>i. 0 \<le> i \<Longrightarrow> i < ?N \<Longrightarrow> (?bm ! nat i = 0) = covered ?fl i"
  proof -
    fix i assume i: "0 \<le> i" "i < ?N"
    then have "i \<in> set (py_range 0 ?N)" by simp
    with assms(2) have "(?bm ! nat i = 1) = (\<not> covered ?fl i)" unfolding inv1_def by blast
    with bit[OF i] show "(?bm ! nat i = 0) = covered ?fl i" by auto
  qed
  have each: "\<forall>e\<in>set ?fl. 0 \<le> start e \<and> 0 < size' e \<and> start e + size' e \<le> ?N \<and>
      (\<forall>i\<in>{start e..<start e + size' e}. ?bm ! nat i = 0) \<and>
      (start e = 0 \<or> ?bm ! nat (start e - 1) \<noteq> 0) \<and>
      (start e + size' e = ?N \<or> ?bm ! nat (start e + size' e) \<noteq> 0)"
  proof
    fix e assume e: "e \<in> set ?fl"
    with ext have eo: "0 < size' e" "0 \<le> start e" "start e + size' e \<le> ?N"
      by (simp_all add: extents_on_def)
    have inside: "\<forall>i\<in>{start e..<start e + size' e}. ?bm ! nat i = 0"
    proof
      fix i assume i: "i \<in> {start e..<start e + size' e}"
      with e have "covered ?fl i" by (auto simp: covered_def covers_def)
      moreover from i eo have "0 \<le> i" "i < ?N" by simp_all
      ultimately show "?bm ! nat i = 0" using free_iff by simp
    qed
    have outside: "\<And>j. j = start e - 1 \<or> j = start e + size' e \<Longrightarrow> \<not> covered ?fl j"
    proof
      fix j assume j: "j = start e - 1 \<or> j = start e + size' e" and "covered ?fl j"
      then obtain e' where e': "e' \<in> set ?fl" "start e' \<le> j" "j < start e' + size' e'"
        by (auto simp: covered_def covers_def)
      from separated_pairwise[OF assms(3) e e'(1)] j e'(2,3) eo(1)
      show False by auto
    qed
    have left: "start e = 0 \<or> ?bm ! nat (start e - 1) \<noteq> 0"
    proof (cases "start e = 0")
      case True then show ?thesis by simp
    next
      case False
      with eo have "0 \<le> start e - 1" "start e - 1 < ?N" by simp_all
      from free_iff[OF this] outside[of "start e - 1"] show ?thesis by simp
    qed
    have right: "start e + size' e = ?N \<or> ?bm ! nat (start e + size' e) \<noteq> 0"
    proof (cases "start e + size' e = ?N")
      case True then show ?thesis by simp
    next
      case False
      with eo have "0 \<le> start e + size' e" "start e + size' e < ?N" by simp_all
      from free_iff[OF this] outside[of "start e + size' e"] show ?thesis by simp
    qed
    from eo inside left right
    show "0 \<le> start e \<and> 0 < size' e \<and> start e + size' e \<le> ?N \<and>
      (\<forall>i\<in>{start e..<start e + size' e}. ?bm ! nat i = 0) \<and>
      (start e = 0 \<or> ?bm ! nat (start e - 1) \<noteq> 0) \<and>
      (start e + size' e = ?N \<or> ?bm ! nat (start e + size' e) \<noteq> 0)" by blast
  qed
  have compl: "\<forall>i\<in>{0..<?N}. ?bm ! nat i = 0 \<longrightarrow>
      (\<exists>e\<in>set ?fl. start e \<le> i \<and> i < start e + size' e)"
  proof (intro ballI impI)
    fix i assume "i \<in> {0..<?N}" "?bm ! nat i = 0"
    with free_iff[of i] have "covered ?fl i" by simp
    then show "\<exists>e\<in>set ?fl. start e \<le> i \<and> i < start e + size' e"
      by (simp add: covered_def covers_def)
  qed
  have "sorted_wrt (\<lambda>a b. start a < start b) ?fl"
  proof (rule sorted_wrt_mono_rel[OF _ assms(3)[unfolded separated_def]])
    fix a b assume "a \<in> set ?fl" "start a + size' a < start b"
    with ext show "start a < start b" by (auto simp: extents_on_def)
  qed
  then have srt: "sorted_wrt (\<lambda>g h. fst g < fst h) (extent_pairs ?fl)"
    by (simp add: extent_pairs_def sorted_wrt_map)
  from each compl srt show ?thesis
    by (simp add: maximal_free_runs_def extent_pairs_def)
qed

lemma invariantsI:
  assumes "well_formed s" "inv1 s" "separated (free_list s)" "0 \<le> disk_size s"
      and "update_groups s = Inr s"
  shows "invariants s"
proof -
  from assms(1) have ext: "extents_on (disk_size s) (free_list s)"
    and sz: "nat (disk_size s) \<le> length (bitmap s)"
    by (simp_all add: well_formed_def extents_on_def bitmap_sized_def)
  from update_groups_runs[OF sz] assms(5) obtain gs where
    "s = s\<lparr>groups := gs\<rparr>" "maximal_free_runs (bitmap s) (disk_size s) gs" by auto
  then have "maximal_free_runs (bitmap s) (disk_size s) (groups s)"
    by (metis HybridSpaceManager.select_convs(4) HybridSpaceManager.surjective
        HybridSpaceManager.update_convs(4))
  from maximal_free_runs_unique[OF this separated_runs[OF assms(1-3)]]
  have "inv4 s" using assms(5) by (simp add: inv4_def)
  with assms separated_inv2[OF assms(3) ext] separated_inv3[OF assms(1-4)]
  show ?thesis by (simp add: invariants_def)
qed

lemma invariantsD:
  assumes "invariants s"
  shows "well_formed s" "inv1 s" "separated (free_list s)" "0 \<le> disk_size s"
    "update_groups s = Inr s" "groups s = extent_pairs (free_list s)"
    "extents_on (disk_size s) (free_list s)" "bitmap_sized s"
proof -
  from assms show wf: "well_formed s" and "inv1 s" and "update_groups s = Inr s"
    and "groups s = extent_pairs (free_list s)"
    by (simp_all add: invariants_def inv4_def)
  from assms show "separated (free_list s)" by (simp add: invariants_def inv2_separated)
  from wf show "extents_on (disk_size s) (free_list s)" "bitmap_sized s"
    by (simp_all add: well_formed_def extents_on_def)
  from wf have "\<And>x. x \<in> set (map size' (free_list s)) \<Longrightarrow> 0 \<le> x"
    by (auto simp: well_formed_def)
  then have "0 \<le> sum_list (map size' (free_list s))" by (rule sum_list_nonneg)
  moreover from assms have "inv3 s" by (simp add: invariants_def)
  ultimately show "0 \<le> disk_size s" by (simp add: inv3_def)
qed

section \<open>Calls preserve the invariants\<close>

lemma allocate_groups_fresh:
  "allocate s st n = Inr ((True, r), s') \<Longrightarrow> update_groups s' = Inr s'"
  by (auto simp: allocate_def update_groups_idem split: if_splits sum.splits bool.splits)

lemma deallocate_groups_fresh:
  "deallocate s st n = Inr (True, s') \<Longrightarrow> update_groups s' = Inr s'"
  by (auto simp: deallocate_def update_groups_idem split: if_splits sum.splits)

lemma marked_bits:
  assumes "set bm \<subseteq> {0, 1}" "length bm' = length bm" "v = 0 \<or> v = 1"
      and "\<forall>k < length bm'. bm' ! k = (if P k then v else bm ! k)"
  shows "set bm' \<subseteq> {0, (1::int)}"
proof
  fix x assume "x \<in> set bm'"
  then obtain k where k: "k < length bm'" "x = bm' ! k" by (auto simp: in_set_conv_nth)
  with assms(2) have "bm ! k \<in> set bm" by simp
  with assms(1) have "bm ! k = 0 \<or> bm ! k = 1" by auto
  with assms(3,4) k show "x \<in> {0, 1}" by auto
qed

lemma allocate_preserves:
  assumes "invariants s" "1 \<le> n" "0 \<le> st" "st + n \<le> disk_size s"
      and "\<forall>i\<in>{st..<st + n}. bitmap s ! nat i \<noteq> 1"
  shows "\<exists>s'. allocate s st n = Inr ((True, st), s') \<and> invariants s' \<and>
           disk_size s' = disk_size s \<and> length (bitmap s') = length (bitmap s) \<and>
           (\<forall>k < length (bitmap s). bitmap s' ! k =
               (if st \<le> int k \<and> int k < st + n then 1 else bitmap s ! k)) \<and>
           (\<forall>i. covered (free_list s') i =
               (covered (free_list s) i \<and> \<not> (st \<le> i \<and> i < st + n)))"
proof -
  note d = invariantsD[OF assms(1)]
  let ?N = "disk_size s"
  have free: "\<forall>i\<in>set (py_range st (st + n)). bitmap s ! nat i \<noteq> 1" using assms(5) by simp
  from allocate_success[OF d(8) assms(3,4) free] obtain bm gs where
    a: "allocate s st n = Inr ((True, st), \<lparr>disk_size = ?N, bitmap = bm,
           free_list = allocate_chain st n (free_list s), groups = gs\<rparr>)"
    and l: "length bm = length (bitmap s)"
    and b: "\<forall>k < length bm. bm ! k = (if st \<le> int k \<and> int k < st + n then 1 else bitmap s ! k)"
    by blast
  let ?s' = "\<lparr>disk_size = ?N, bitmap = bm,
           free_list = allocate_chain st n (free_list s), groups = gs\<rparr>"
  have cov_old: "\<forall>i\<in>{st..<st + n}. covered (free_list s) i"
  proof
    fix i assume i: "i \<in> {st..<st + n}"
    with assms(3,4) have "i \<in> set (py_range 0 ?N)" by simp
    with d(2) have "(bitmap s ! nat i = 1) = (\<not> covered (free_list s) i)"
      unfolding inv1_def by blast
    with assms(5) i show "covered (free_list s) i" by blast
  qed
  from allocate_chain_inv[OF d(3) d(7) assms(2) cov_old]
  have sep: "separated (free_list ?s')" and ext: "extents_on ?N (free_list ?s')"
    and cov: "\<forall>i. covered (free_list ?s') i =
                (covered (free_list s) i \<and> \<not> (st \<le> i \<and> i < st + n))" by simp_all
  have bits: "set bm \<subseteq> {0, 1}"
  proof (rule marked_bits[where bm = "bitmap s" and v = 1
          and P = "\<lambda>k. st \<le> int k \<and> int k < st + n"])
    show "set (bitmap s) \<subseteq> {0, 1}" using d(1) by (simp add: well_formed_def)
    show "length bm = length (bitmap s)" by (rule l)
    show "(1::int) = 0 \<or> (1::int) = 1" by simp
    show "\<forall>k<length bm. bm ! k = (if st \<le> int k \<and> int k < st + n then 1 else bitmap s ! k)"
      by (rule b)
  qed
  have wf: "well_formed ?s'"
    using d(8) l bits ext by (simp add: well_formed_def bitmap_sized_def extents_on_def)
  have i1: "inv1 ?s'"
    unfolding inv1_def
  proof
    fix i assume "i \<in> set (py_range 0 (disk_size ?s'))"
    then have i: "0 \<le> i" "i < ?N" by simp_all
    then have "i \<in> set (py_range 0 ?N)" by simp
    with d(2) have old: "(bitmap s ! nat i = 1) = (\<not> covered (free_list s) i)"
      unfolding inv1_def by blast
    from i d(8) l have "nat i < length bm" by (simp add: bitmap_sized_def)
    with b i have "bm ! nat i = (if st \<le> i \<and> i < st + n then 1 else bitmap s ! nat i)" by simp
    with old spec[OF cov, of i] show "(bitmap ?s' ! nat i = 1) = (\<not> covered (free_list ?s') i)"
      by auto
  qed
  have "invariants ?s'"
    using wf i1 sep d(4) allocate_groups_fresh[OF a] by (intro invariantsI) simp_all
  with a l b cov show ?thesis by (intro exI[of _ ?s']) simp
qed

lemma deallocate_preserves:
  assumes "invariants s" "1 \<le> n" "0 \<le> st" "st + n \<le> disk_size s"
      and "\<forall>i\<in>{st..<st + n}. bitmap s ! nat i = 1"
  shows "\<exists>s'. deallocate s st n = Inr (True, s') \<and> invariants s' \<and>
           disk_size s' = disk_size s \<and> length (bitmap s') = length (bitmap s) \<and>
           (\<forall>k < length (bitmap s). bitmap s' ! k =
               (if st \<le> int k \<and> int k < st + n then 0 else bitmap s ! k))"
proof -
  note d = invariantsD[OF assms(1)]
  let ?N = "disk_size s"
  from deallocate_success[OF d(8) assms(3,4)] obtain bm gs where
    a: "deallocate s st n = Inr (True, \<lparr>disk_size = ?N, bitmap = bm,
           free_list = deallocate_chain st n (free_list s), groups = gs\<rparr>)"
    and l: "length bm = length (bitmap s)"
    and b: "\<forall>k < length bm. bm ! k = (if st \<le> int k \<and> int k < st + n then 0 else bitmap s ! k)"
    by blast
  let ?s' = "\<lparr>disk_size = ?N, bitmap = bm,
           free_list = deallocate_chain st n (free_list s), groups = gs\<rparr>"
  have unc: "\<forall>i\<in>{st..<st + n}. \<not> covered (free_list s) i"
  proof
    fix i assume i: "i \<in> {st..<st + n}"
    with assms(3,4) have "i \<in> set (py_range 0 ?N)" by simp
    with d(2) have "(bitmap s ! nat i = 1) = (\<not> covered (free_list s) i)"
      unfolding inv1_def by blast
    with assms(5) i show "\<not> covered (free_list s) i" by blast
  qed
  from deallocate_chain_inv[OF d(3) d(7) assms(2,3,4) unc]
  have sep: "separated (free_list ?s')" and ext: "extents_on ?N (free_list ?s')" by simp_all
  have nn: "\<forall>e\<in>set (free_list s). 0 \<le> size' e" using d(7) by (auto simp: extents_on_def)
  have cov: "\<And>i. covered (free_list ?s') i = (covered (free_list s) i \<or> (st \<le> i \<and> i < st + n))"
    using assms(2) nn by (simp add: deallocate_chain_covered)
  have bits: "set bm \<subseteq> {0, 1}"
  proof (rule marked_bits[where bm = "bitmap s" and v = 0
          and P = "\<lambda>k. st \<le> int k \<and> int k < st + n"])
    show "set (bitmap s) \<subseteq> {0, 1}" using d(1) by (simp add: well_formed_def)
    show "length bm = length (bitmap s)" by (rule l)
    show "(0::int) = 0 \<or> (0::int) = 1" by simp
    show "\<forall>k<length bm. bm ! k = (if st \<le> int k \<and> int k < st + n then 0 else bitmap s ! k)"
      by (rule b)
  qed
  have wf: "well_formed ?s'"
    using d(8) l bits ext by (simp add: well_formed_def bitmap_sized_def extents_on_def)
  have i1: "inv1 ?s'"
    unfolding inv1_def
  proof
    fix i assume "i \<in> set (py_range 0 (disk_size ?s'))"
    then have i: "0 \<le> i" "i < ?N" by simp_all
    then have "i \<in> set (py_range 0 ?N)" by simp
    with d(2) have old: "(bitmap s ! nat i = 1) = (\<not> covered (free_list s) i)"
      unfolding inv1_def by blast
    from i d(8) l have "nat i < length bm" by (simp add: bitmap_sized_def)
    with b i have "bm ! nat i = (if st \<le> i \<and> i < st + n then 0 else bitmap s ! nat i)" by simp
    with old cov[of i] show "(bitmap ?s' ! nat i = 1) = (\<not> covered (free_list ?s') i)"
      by auto
  qed
  have "invariants ?s'"
    using wf i1 sep d(4) deallocate_groups_fresh[OF a] by (intro invariantsI) simp_all
  with a l b show ?thesis by (intro exI[of _ ?s']) simp
qed

section \<open>The fresh manager and runs of valid calls\<close>

lemma init_fresh: "init N = Inr (fresh_state N)"
proof -
  let ?t = "\<lparr>disk_size = N, bitmap = replicate (nat N) 0,
              free_list = [FreeExtent 0 N], groups = []\<rparr>"
  have "nat (disk_size ?t) \<le> length (bitmap ?t)" by simp
  from update_groups_runs[OF this] obtain gs where
    u: "update_groups ?t = Inr (?t\<lparr>groups := gs\<rparr>)"
    and m: "maximal_free_runs (replicate (nat N) 0) N gs" by auto
  have "maximal_free_runs (replicate (nat N) 0) N (if 0 < N then [(0, N)] else [])"
    by (auto simp: maximal_free_runs_def)
  from maximal_free_runs_unique[OF m this] u show ?thesis
    by (simp add: init_def fresh_state_def)
qed

lemma fresh_invariants:
  assumes "1 \<le> N"
  shows "invariants (fresh_state N)"
proof (rule invariantsI)
  show "well_formed (fresh_state N)"
    using assms by (auto simp: well_formed_def bitmap_sized_def fresh_state_def)
  show "inv1 (fresh_state N)"
    using assms by (auto simp: inv1_def fresh_state_def covers_def)
  show "separated (free_list (fresh_state N))" by (simp add: fresh_state_def)
  show "0 \<le> disk_size (fresh_state N)" using assms by (simp add: fresh_state_def)
  from init_fresh[of N] have "update_groups \<lparr>disk_size = N, bitmap = replicate (nat N) 0,
              free_list = [FreeExtent 0 N], groups = []\<rparr> = Inr (fresh_state N)"
    by (simp add: init_def)
  then show "update_groups (fresh_state N) = Inr (fresh_state N)" by (rule update_groups_idem)
qed

lemma apply_call_preserves:
  assumes "invariants s" "valid_call s c"
  shows "\<exists>s'. apply_call s c = Inr (True, s') \<and> invariants s'"
proof (cases c)
  case (Allocate st n)
  with assms(2) have v: "1 \<le> n" "0 \<le> st" "st + n \<le> disk_size s"
    "\<forall>i\<in>{st..<st + n}. bitmap s ! nat i \<noteq> 1" by auto
  from allocate_preserves[OF assms(1) v] Allocate show ?thesis by auto
next
  case (Deallocate st n)
  with assms(2) have v: "1 \<le> n" "0 \<le> st" "st + n \<le> disk_size s"
    "\<forall>i\<in>{st..<st + n}. bitmap s ! nat i = 1" by auto
  from deallocate_preserves[OF assms(1) v] Deallocate show ?thesis by auto
qed

lemma run_preserves:
  "invariants s \<Longrightarrow> valid_run s cs \<Longrightarrow> \<exists>s'. run s cs = Inr s' \<and> invariants s'"
proof (induction cs arbitrary: s)
  case Nil
  then show ?case by simp
next
  case (Cons c cs)
  from Cons.prems have vc: "valid_call s c" by simp
  from apply_call_preserves[OF Cons.prems(1) vc] obtain s' where
    s': "apply_call s c = Inr (True, s')" "invariants s'" by blast
  with Cons.prems(2) have "valid_run s' cs" by simp
  from Cons.IH[OF s'(2) this] s'(1) show ?case by simp
qed

text \<open>
  C1 as stated fails when "valid" means the preconditions that \<^verbatim>\<open>deallocate\<close> has:
  on the fresh 50-block device \<^verbatim>\<open>deallocate(10, 5)\<close> has \<open>n \<ge> 1\<close> and an in-range
  target and returns success, and afterwards the chain holds the overlapping
  extents [0:50) and [10:15): invariants 2, 3 and 4 are broken.
\<close>

theorem double_free_breaks_invariants:
  "init 50 = Inr (fresh_state 50) \<and>
   deallocate (fresh_state 50) 10 5 =
     Inr (True, \<lparr>disk_size = 50, bitmap = replicate 50 0,
                 free_list = [FreeExtent 0 50, FreeExtent 10 5], groups = [(0, 50)]\<rparr>) \<and>
   \<not> inv2 \<lparr>disk_size = 50, bitmap = replicate 50 0,
           free_list = [FreeExtent 0 50, FreeExtent 10 5], groups = [(0, 50)]\<rparr> \<and>
   \<not> inv3 \<lparr>disk_size = 50, bitmap = replicate 50 0,
           free_list = [FreeExtent 0 50, FreeExtent 10 5], groups = [(0, 50)]\<rparr> \<and>
   \<not> inv4 \<lparr>disk_size = 50, bitmap = replicate 50 0,
           free_list = [FreeExtent 0 50, FreeExtent 10 5], groups = [(0, 50)]\<rparr>"
  by code_simp

text \<open>
  C1, amended. Start from a freshly constructed manager and apply any non-empty
  sequence of calls in which every call has \<open>n \<ge> 1\<close> and a range on the device,
  every allocation targets blocks that are all free, and every deallocation
  targets blocks that are all allocated. Then every call returns and the state
  after the last call (so after every call) is well formed and satisfies
  invariants 1 to 4.
\<close>

theorem valid_calls_preserve_invariants:
  assumes "init N = Inr s0" "valid_run s0 cs" "cs \<noteq> []"
  shows "\<exists>s. run s0 cs = Inr s \<and> invariants s"
proof -
  from assms(1) have s0: "s0 = fresh_state N" by (simp add: init_fresh)
  from assms(3) obtain c cs' where cs: "cs = c # cs'" by (cases cs) auto
  with assms(2) have "valid_call s0 c" by simp
  then have "1 \<le> disk_size s0" by (cases c) auto
  with s0 have "1 \<le> N" by (simp add: fresh_state_def)
  then have "invariants s0" unfolding s0 by (rule fresh_invariants)
  from run_preserves[OF this assms(2)] show ?thesis .
qed

theorem valid_calls_preserve_invariants_witness:
  "init 50 = Inr (fresh_state 50) \<and>
   valid_run (fresh_state 50) [Allocate 10 5, Allocate 30 10, Deallocate 10 5] \<and>
   run (fresh_state 50) [Allocate 10 5, Allocate 30 10, Deallocate 10 5] =
     Inr \<lparr>disk_size = 50, bitmap = replicate 30 0 @ replicate 10 1 @ replicate 10 0,
          free_list = [FreeExtent 0 30, FreeExtent 40 10], groups = [(0, 30), (40, 10)]\<rparr> \<and>
   invariants \<lparr>disk_size = 50, bitmap = replicate 30 0 @ replicate 10 1 @ replicate 10 0,
          free_list = [FreeExtent 0 30, FreeExtent 40 10], groups = [(0, 30), (40, 10)]\<rparr>"
proof -
  let ?cs = "[Allocate 10 5, Allocate 30 10, Deallocate 10 5]"
  have i: "init 50 = Inr (fresh_state 50)" by (rule init_fresh)
  have v: "valid_run (fresh_state 50) ?cs" by code_simp
  have ne: "?cs \<noteq> []" by simp
  have r: "run (fresh_state 50) ?cs =
     Inr \<lparr>disk_size = 50, bitmap = replicate 30 0 @ replicate 10 1 @ replicate 10 0,
          free_list = [FreeExtent 0 30, FreeExtent 40 10], groups = [(0, 30), (40, 10)]\<rparr>"
    by code_simp
  from valid_calls_preserve_invariants[OF i v ne] r i v show ?thesis by simp
qed

section \<open>Allocation followed by deallocation\<close>

lemma allocate_chain_zero:
  assumes "\<forall>e\<in>set fl. 0 \<le> size' e"
  shows "(\<forall>e\<in>set (allocate_chain st 0 fl). 0 \<le> size' e) \<and>
         (\<forall>i. covered (allocate_chain st 0 fl) i = covered fl i)"
  using assms
proof (induction fl)
  case Nil
  then show ?case by simp
next
  case (Cons c rest)
  then have ih: "\<forall>e\<in>set (allocate_chain st 0 rest). 0 \<le> size' e"
    "\<forall>i. covered (allocate_chain st 0 rest) i = covered rest i" by simp_all
  from Cons.prems have c: "0 \<le> size' c" "\<forall>e\<in>set rest. 0 \<le> size' e" by simp_all
  show ?case
  proof (cases "start c \<le> st \<and> start c + size' c \<ge> st + 0")
    case True
    with c show ?thesis by (auto simp: covers_def)
  next
    case False
    then have "allocate_chain st 0 (c # rest) = c # allocate_chain st 0 rest"
      by (simp only: allocate_chain.simps if_False)
    with ih c show ?thesis by simp
  qed
qed

lemma allocate_success_conditions:
  assumes "bitmap_sized s" "allocate s st n = Inr ((True, r), s1)"
  shows "0 \<le> st \<and> st + n \<le> disk_size s \<and> (\<forall>i\<in>{st..<st + n}. bitmap s ! nat i \<noteq> 1)"
proof (rule ccontr)
  assume "\<not> (0 \<le> st \<and> st + n \<le> disk_size s \<and> (\<forall>i\<in>{st..<st + n}. bitmap s ! nat i \<noteq> 1))"
  then have "st < 0 \<or> disk_size s < st + n \<or>
      (\<exists>i\<in>set (py_range st (st + n)). bitmap s ! nat i = 1)" by auto
  from allocate_failure[OF assms(1) this] assms(2) show False by simp
qed

lemma extent_pairs_inj: "extent_pairs xs = extent_pairs ys \<Longrightarrow> xs = ys"
proof -
  have "inj (\<lambda>e. (start e, size' e))"
    by (rule injI) (simp add: FreeExtent.expand)
  then show "extent_pairs xs = extent_pairs ys \<Longrightarrow> xs = ys"
    unfolding extent_pairs_def by (simp add: inj_map_eq_map)
qed

lemma invariants_determined:
  assumes "invariants s" "invariants t" "disk_size t = disk_size s" "bitmap t = bitmap s"
  shows "t = s"
proof -
  note ds = invariantsD[OF assms(1)] and dt = invariantsD[OF assms(2)]
  from separated_runs[OF ds(1-3)] separated_runs[OF dt(1-3)] assms(3,4)
  have "extent_pairs (free_list t) = extent_pairs (free_list s)"
    by (auto intro: maximal_free_runs_unique)
  then have "free_list t = free_list s" by (rule extent_pairs_inj)
  with ds(6) dt(6) assms(3,4) show ?thesis by simp
qed


text \<open>
  C7 as stated fails: \<^verbatim>\<open>allocate\<close> also succeeds for a negative count, and then
  the round trip changes the blocks the chain covers. On a 10-block device with
  blocks 0 to 4 allocated, \<^verbatim>\<open>allocate(5, -2)\<close> succeeds and turns the extent [5:10)
  into [3:10); \<^verbatim>\<open>deallocate(5, -2)\<close> succeeds and leaves blocks 3 and 4 covered,
  which they were not before.
\<close>

theorem negative_count_round_trip_differs:
  "invariants \<lparr>disk_size = 10, bitmap = replicate 5 1 @ replicate 5 0,
       free_list = [FreeExtent 5 5], groups = [(5, 5)]\<rparr> \<and>
   allocate \<lparr>disk_size = 10, bitmap = replicate 5 1 @ replicate 5 0,
       free_list = [FreeExtent 5 5], groups = [(5, 5)]\<rparr> 5 (- 2) =
     Inr ((True, 5), \<lparr>disk_size = 10, bitmap = replicate 5 1 @ replicate 5 0,
       free_list = [FreeExtent 3 7], groups = [(5, 5)]\<rparr>) \<and>
   deallocate \<lparr>disk_size = 10, bitmap = replicate 5 1 @ replicate 5 0,
       free_list = [FreeExtent 3 7], groups = [(5, 5)]\<rparr> 5 (- 2) =
     Inr (True, \<lparr>disk_size = 10, bitmap = replicate 5 1 @ replicate 5 0,
       free_list = [FreeExtent 3 7, FreeExtent 5 (- 2)], groups = [(5, 5)]\<rparr>) \<and>
   covered [FreeExtent 3 7, FreeExtent 5 (- 2)] 3 \<and> \<not> covered [FreeExtent 5 5] 3"
  by code_simp

text \<open>
  C7, amended. For every state that satisfies the invariants and every
  \<open>(start, n)\<close> with \<open>n \<ge> 0\<close> for which \<^verbatim>\<open>allocate(start, n)\<close> succeeds, the
  immediately following \<^verbatim>\<open>deallocate(start, n)\<close> succeeds, restores the bitmap and
  leaves a chain that covers exactly the blocks covered before the allocation;
  for \<open>n \<ge> 1\<close> the whole state, chain and groups included, is the one before the
  allocation.
\<close>

theorem allocate_deallocate_round_trip:
  assumes "invariants s" "0 \<le> n" "allocate s st n = Inr ((True, r), s1)"
  shows "\<exists>s2. deallocate s1 st n = Inr (True, s2) \<and> bitmap s2 = bitmap s \<and>
           (\<forall>i. covered (free_list s2) i = covered (free_list s) i) \<and>
           (1 \<le> n \<longrightarrow> s2 = s)"
proof -
  note d = invariantsD[OF assms(1)]
  from allocate_success_conditions[OF d(8) assms(3)]
  have c: "0 \<le> st" "st + n \<le> disk_size s" "\<forall>i\<in>{st..<st + n}. bitmap s ! nat i \<noteq> 1"
    by blast+
  show ?thesis
  proof (cases "1 \<le> n")
    case True
    from allocate_preserves[OF assms(1) True c] assms(3) have
      i1: "invariants s1" and n1: "disk_size s1 = disk_size s"
      and l1: "length (bitmap s1) = length (bitmap s)"
      and b1: "\<forall>k < length (bitmap s). bitmap s1 ! k =
               (if st \<le> int k \<and> int k < st + n then 1 else bitmap s ! k)"
      by auto
    have len: "length (bitmap s) = nat (disk_size s)" using d(8) by (simp add: bitmap_sized_def)
    have marked: "\<forall>i\<in>{st..<st + n}. bitmap s1 ! nat i = 1"
    proof
      fix i assume i: "i \<in> {st..<st + n}"
      with c len have "nat i < length (bitmap s)" by simp
      with b1 i c(1) show "bitmap s1 ! nat i = 1" by simp
    qed
    have c1: "st + n \<le> disk_size s1" using c(2) n1 by simp
    from deallocate_preserves[OF i1 True c(1) c1 marked] obtain s2 where
      d2: "deallocate s1 st n = Inr (True, s2)" and i2: "invariants s2"
      and n2: "disk_size s2 = disk_size s1" and l2: "length (bitmap s2) = length (bitmap s1)"
      and b2: "\<forall>k < length (bitmap s1). bitmap s2 ! k =
               (if st \<le> int k \<and> int k < st + n then 0 else bitmap s1 ! k)" by blast
    have bm: "bitmap s2 = bitmap s"
    proof (rule nth_equalityI)
      show "length (bitmap s2) = length (bitmap s)" using l1 l2 by simp
    next
      fix k assume "k < length (bitmap s2)"
      then have k: "k < length (bitmap s)" using l1 l2 by simp
      show "bitmap s2 ! k = bitmap s ! k"
      proof (cases "st \<le> int k \<and> int k < st + n")
        case False
        from b1 k False have "bitmap s1 ! k = bitmap s ! k" by auto
        moreover from b2 k l1 False have "bitmap s2 ! k = bitmap s1 ! k" by auto
        ultimately show ?thesis by simp
      next
        case True
        then have "int k \<in> {st..<st + n}" by simp
        with c(3) have "bitmap s ! nat (int k) \<noteq> 1" by blast
        moreover have "bitmap s ! k \<in> set (bitmap s)" using k by simp
        with d(1) have "bitmap s ! k = 0 \<or> bitmap s ! k = 1" by (auto simp: well_formed_def)
        ultimately have "bitmap s ! k = 0" by simp
        moreover from b2 k l1 True have "bitmap s2 ! k = 0" by auto
        ultimately show ?thesis by simp
      qed
    qed
    from invariants_determined[OF assms(1) i2 _ bm] n1 n2 have "s2 = s" by simp
    with d2 show ?thesis by simp
  next
    case False
    with assms(2) have n0: "n = 0" by simp
    from allocate_success[OF d(8) c(1) c(2)] c(3) assms(3) obtain bm gs where
      s1: "s1 = \<lparr>disk_size = disk_size s, bitmap = bm,
                 free_list = allocate_chain st n (free_list s), groups = gs\<rparr>"
      and l: "length bm = length (bitmap s)"
      and b: "\<forall>k < length bm. bm ! k = (if st \<le> int k \<and> int k < st + n then 1 else bitmap s ! k)"
      by auto
    have bm: "bm = bitmap s" using l b n0 by (intro nth_equalityI) auto
    have sized1: "bitmap_sized s1" using d(8) s1 bm by (simp add: bitmap_sized_def)
    have c1: "st + n \<le> disk_size s1" using c(2) s1 by simp
    from deallocate_success[OF sized1 c(1) c1] obtain bm2 gs2 where
      d2: "deallocate s1 st n = Inr (True, \<lparr>disk_size = disk_size s1, bitmap = bm2,
              free_list = deallocate_chain st n (free_list s1), groups = gs2\<rparr>)"
      and l2: "length bm2 = length (bitmap s1)"
      and b2: "\<forall>k < length bm2. bm2 ! k =
                 (if st \<le> int k \<and> int k < st + n then 0 else bitmap s1 ! k)" by blast
    have bm2: "bm2 = bitmap s" using l2 b2 n0 s1 bm by (intro nth_equalityI) auto
    have nn: "\<forall>e\<in>set (free_list s). 0 \<le> size' e" using d(7) by (auto simp: extents_on_def)
    from allocate_chain_zero[OF nn, of st]
    have z: "\<forall>e\<in>set (allocate_chain st 0 (free_list s)). 0 \<le> size' e"
      "\<forall>i. covered (allocate_chain st 0 (free_list s)) i = covered (free_list s) i"
      by blast+
    have "\<forall>i. covered (deallocate_chain st n (free_list s1)) i = covered (free_list s) i"
      using z n0 s1 by (auto simp: deallocate_chain_covered)
    with d2 bm2 False show ?thesis by simp
  qed
qed

theorem allocate_deallocate_round_trip_witness:
  "invariants (fresh_state 10) \<and>
   allocate (fresh_state 10) 2 3 =
     Inr ((True, 2), \<lparr>disk_size = 10, bitmap = replicate 2 0 @ replicate 3 1 @ replicate 5 0,
            free_list = [FreeExtent 0 2, FreeExtent 5 5], groups = [(0, 2), (5, 5)]\<rparr>) \<and>
   deallocate \<lparr>disk_size = 10, bitmap = replicate 2 0 @ replicate 3 1 @ replicate 5 0,
            free_list = [FreeExtent 0 2, FreeExtent 5 5], groups = [(0, 2), (5, 5)]\<rparr> 2 3 =
     Inr (True, fresh_state 10)"
proof -
  let ?s1 = "\<lparr>disk_size = 10, bitmap = replicate 2 0 @ replicate 3 1 @ replicate 5 0,
            free_list = [FreeExtent 0 2, FreeExtent 5 5], groups = [(0, 2), (5, 5)]\<rparr>"
  have i: "invariants (fresh_state 10)" by (rule fresh_invariants) simp
  have n: "(0::int) \<le> 3" by simp
  have a: "allocate (fresh_state 10) 2 3 = Inr ((True, 2), ?s1)" by code_simp
  from allocate_deallocate_round_trip[OF i n a] i a show ?thesis by auto
qed

section \<open>The chain that \<^verbatim>\<open>deallocate\<close> builds\<close>

lemma merge_steps:
  "merge_prev st p (merge_next st n post) = spec_insert_coalesce st n [p] post"
  by (cases post) (simp_all add: spec_insert_coalesce_def Let_def)

lemma spec_insert_coalesce_prefix:
  "before \<noteq> [] \<Longrightarrow>
   spec_insert_coalesce st n before following =
     butlast before @ spec_insert_coalesce st n [last before] following"
  by (simp add: spec_insert_coalesce_def Let_def)

lemma walk_chain_split:
  assumes "\<forall>e\<in>set pre. start e < st" "post = [] \<or> \<not> start (hd post) < st"
  shows "walk_chain st n prev (pre @ post) = spec_insert_coalesce st n (prev # pre) post"
  using assms
proof (induction pre arbitrary: prev)
  case Nil
  then show ?case
    by (cases post) (simp_all add: merge_steps del: merge_prev.simps merge_next.simps)
next
  case (Cons c pre)
  from Cons.prems have c: "start c < st" and rest: "\<forall>e\<in>set pre. start e < st" by simp_all
  from Cons.IH[OF rest Cons.prems(2), of c]
  have ih: "walk_chain st n c (pre @ post) = spec_insert_coalesce st n (c # pre) post" .
  have "walk_chain st n prev ((c # pre) @ post) = prev # walk_chain st n c (pre @ post)"
    using c by simp
  also have "\<dots> = prev # spec_insert_coalesce st n (c # pre) post" by (simp only: ih)
  also have "\<dots> = spec_insert_coalesce st n (prev # c # pre) post"
    by (simp add: spec_insert_coalesce_def Let_def)
  finally show ?case .
qed

lemma deallocate_chain_split:
  assumes "\<forall>e\<in>set pre. start e < st" "post = [] \<or> \<not> start (hd post) < st"
  shows "deallocate_chain st n (pre @ post) = spec_insert_coalesce st n pre post"
proof (cases pre)
  case Nil
  with assms(2) show ?thesis
    by (cases post) (auto simp: spec_insert_coalesce_def Let_def)
next
  case (Cons c rest)
  with assms(1) have c: "start c < st" and r: "\<forall>e\<in>set rest. start e < st" by simp_all
  from walk_chain_split[OF r assms(2), of n c] c Cons show ?thesis by simp
qed

lemma deallocate_chain_spec:
  "deallocate_chain st n fl =
     spec_insert_coalesce st n (takeWhile (\<lambda>e. start e < st) fl) (dropWhile (\<lambda>e. start e < st) fl)"
proof -
  let ?P = "\<lambda>e. start e < st"
  have a: "\<forall>e\<in>set (takeWhile ?P fl). start e < st" by (auto dest: set_takeWhileD)
  have b: "dropWhile ?P fl = [] \<or> \<not> start (hd (dropWhile ?P fl)) < st"
  proof (cases "dropWhile ?P fl = []")
    case True
    then show ?thesis by (rule disjI1)
  next
    case False
    from hd_dropWhile[OF False] show ?thesis by (rule disjI2)
  qed
  from deallocate_chain_split[OF a b, of n] show ?thesis by simp
qed

text \<open>
  C9. Every request with \<open>n \<ge> 1\<close>, \<open>start \<ge> 0\<close> and \<open>start + n \<le> disk_size\<close> is
  accepted by \<^verbatim>\<open>deallocate\<close> whatever the bitmap holds. The call returns success
  and the targeted blocks read free afterwards. The new chain is the old chain
  with the candidate extent \<open>(start, n)\<close> inserted behind the extents that start
  before \<open>start\<close> and coalesced with the neighbours that touch it, exactly as for
  blocks that were allocated: in particular, when the range lies inside an
  extent of the chain, the candidate becomes an extra node right after that
  extent. The new chain is the same for every bitmap, and (for a chain without
  negative lengths) it covers the old blocks and the targeted ones.
\<close>

theorem deallocate_never_checks_allocation:
  assumes "bitmap_sized s" "1 \<le> n" "0 \<le> st" "st + n \<le> disk_size s"
  shows "\<exists>s'. deallocate s st n = Inr (True, s') \<and>
           (\<forall>i\<in>set (py_range st (st + n)). bitmap s' ! nat i = 0) \<and>
           free_list s' =
             spec_insert_coalesce st n (takeWhile (\<lambda>e. start e < st) (free_list s))
               (dropWhile (\<lambda>e. start e < st) (free_list s)) \<and>
           (\<forall>pre e post. free_list s = pre @ e # post \<and> (\<forall>x\<in>set pre. start x < st) \<and>
               start e < st \<and> st + n \<le> start e + size' e \<and>
               (post = [] \<or> st + n < start (hd post))
              \<longrightarrow> free_list s' = pre @ e # FreeExtent st n # post) \<and>
           ((\<forall>e\<in>set (free_list s). 0 \<le> size' e) \<longrightarrow>
              (\<forall>i. covered (free_list s') i = (covered (free_list s) i \<or> (st \<le> i \<and> i < st + n)))) \<and>
           (\<forall>bm. length bm = length (bitmap s) \<longrightarrow>
              (\<exists>t'. deallocate (s\<lparr>bitmap := bm\<rparr>) st n = Inr (True, t') \<and>
                    free_list t' = free_list s'))"
proof -
  from deallocate_success[OF assms(1,3,4)] obtain bm gs where
    d: "deallocate s st n = Inr (True, \<lparr>disk_size = disk_size s, bitmap = bm,
           free_list = deallocate_chain st n (free_list s), groups = gs\<rparr>)"
    and l: "length bm = length (bitmap s)"
    and b: "\<forall>k < length bm. bm ! k = (if st \<le> int k \<and> int k < st + n then 0 else bitmap s ! k)"
    by blast
  let ?s' = "\<lparr>disk_size = disk_size s, bitmap = bm,
           free_list = deallocate_chain st n (free_list s), groups = gs\<rparr>"
  have zero: "\<forall>i\<in>set (py_range st (st + n)). bitmap ?s' ! nat i = 0"
  proof
    fix i assume "i \<in> set (py_range st (st + n))"
    then have i: "st \<le> i" "i < st + n" by auto
    with assms have "nat i < length bm" by (simp add: l bitmap_sized_def)
    with b i assms(3) show "bitmap ?s' ! nat i = 0" by simp
  qed
  have chain: "free_list ?s' =
      spec_insert_coalesce st n (takeWhile (\<lambda>e. start e < st) (free_list s))
        (dropWhile (\<lambda>e. start e < st) (free_list s))"
    by (simp add: deallocate_chain_spec)
  have inside: "\<forall>pre e post. free_list s = pre @ e # post \<and> (\<forall>x\<in>set pre. start x < st) \<and>
               start e < st \<and> st + n \<le> start e + size' e \<and>
               (post = [] \<or> st + n < start (hd post))
              \<longrightarrow> free_list ?s' = pre @ e # FreeExtent st n # post"
  proof (intro allI impI)
    fix pre e post
    assume h: "free_list s = pre @ e # post \<and> (\<forall>x\<in>set pre. start x < st) \<and>
               start e < st \<and> st + n \<le> start e + size' e \<and>
               (post = [] \<or> st + n < start (hd post))"
    then have fl: "free_list s = (pre @ [e]) @ post" and
      before: "\<forall>x\<in>set (pre @ [e]). start x < st" and
      stop: "post = [] \<or> \<not> start (hd post) < st" and
      nonext: "post = [] \<or> start (hd post) \<noteq> st + n" and
      noprev: "start e + size' e \<noteq> st"
      using assms(2) by auto
    have "deallocate_chain st n (free_list s) = spec_insert_coalesce st n (pre @ [e]) post"
      unfolding fl by (rule deallocate_chain_split[OF before stop])
    also have "\<dots> = (pre @ [e]) @ FreeExtent st n # post"
      using nonext noprev by (auto simp: spec_insert_coalesce_def Let_def)
    finally show "free_list ?s' = pre @ e # FreeExtent st n # post" by simp
  qed
  have cov: "(\<forall>e\<in>set (free_list s). 0 \<le> size' e) \<longrightarrow>
      (\<forall>i. covered (free_list ?s') i = (covered (free_list s) i \<or> (st \<le> i \<and> i < st + n)))"
    using assms(2) by (simp add: deallocate_chain_covered)
  have any: "\<forall>bm'::int list. length bm' = length (bitmap s) \<longrightarrow>
      (\<exists>t'. deallocate (s\<lparr>bitmap := bm'\<rparr>) st n = Inr (True, t') \<and> free_list t' = free_list ?s')"
  proof (intro allI impI)
    fix bm' :: "int list" assume "length bm' = length (bitmap s)"
    with assms(1) have "bitmap_sized (s\<lparr>bitmap := bm'\<rparr>)" by (simp add: bitmap_sized_def)
    from deallocate_success[OF this, of st n] assms(3,4)
    show "\<exists>t'. deallocate (s\<lparr>bitmap := bm'\<rparr>) st n = Inr (True, t') \<and> free_list t' = free_list ?s'"
      by auto
  qed
  from d zero chain inside cov any show ?thesis by blast
qed

theorem deallocate_never_checks_allocation_witness:
  "bitmap_sized (fresh_state 50) \<and>
   (\<exists>s'. deallocate (fresh_state 50) 10 5 = Inr (True, s') \<and>
      bitmap s' ! 12 = 0 \<and>
      free_list s' = [FreeExtent 0 50, FreeExtent 10 5] \<and>
      covered (free_list s') 12 \<and>
      (\<exists>t'. deallocate ((fresh_state 50)\<lparr>bitmap := replicate 50 1\<rparr>) 10 5 = Inr (True, t') \<and>
            free_list t' = free_list s'))"
proof -
  have f: "bitmap_sized (fresh_state 50)" by (simp add: bitmap_sized_def fresh_state_def)
  have sz: "\<forall>e\<in>set (free_list (fresh_state 50)). 0 \<le> size' e" by (simp add: fresh_state_def)
  have len: "length (replicate 50 (1::int)) = length (bitmap (fresh_state 50))"
    by (simp add: fresh_state_def)
  from deallocate_never_checks_allocation[OF f, of 5 10] obtain s' where
    d: "deallocate (fresh_state 50) 10 5 = Inr (True, s')"
    and z: "\<forall>i\<in>set (py_range 10 (10 + 5)). bitmap s' ! nat i = 0"
    and i: "\<forall>pre e post. free_list (fresh_state 50) = pre @ e # post \<and>
               (\<forall>x\<in>set pre. start x < 10) \<and>
               start e < 10 \<and> 10 + 5 \<le> start e + size' e \<and>
               (post = [] \<or> 10 + 5 < start (hd post))
              \<longrightarrow> free_list s' = pre @ e # FreeExtent 10 5 # post"
    and c: "(\<forall>e\<in>set (free_list (fresh_state 50)). 0 \<le> size' e) \<longrightarrow>
              (\<forall>i. covered (free_list s') i =
                   (covered (free_list (fresh_state 50)) i \<or> (10 \<le> i \<and> i < 10 + 5)))"
    and a: "\<forall>bm. length bm = length (bitmap (fresh_state 50)) \<longrightarrow>
              (\<exists>t'. deallocate ((fresh_state 50)\<lparr>bitmap := bm\<rparr>) 10 5 = Inr (True, t') \<and>
                    free_list t' = free_list s')"
    by (auto simp: fresh_state_def)
  from bspec[OF z, of 12] have "bitmap s' ! nat 12 = 0" by simp
  then have z12: "bitmap s' ! 12 = 0" by simp
  from i[rule_format, of "[]" "FreeExtent 0 50" "[]"]
  have ch: "free_list s' = [FreeExtent 0 50, FreeExtent 10 5]" by (simp add: fresh_state_def)
  from c sz have "covered (free_list s') 12" by simp
  moreover from a len have "\<exists>t'. deallocate ((fresh_state 50)\<lparr>bitmap := replicate 50 1\<rparr>) 10 5 = Inr (True, t') \<and>
            free_list t' = free_list s'" by blast
  ultimately show ?thesis using f d z12 ch by blast
qed

section \<open>Merging across a gap\<close>

lemma deallocate_chain_bridge:
  assumes "\<forall>e\<in>set pre. start e < st" "start p < st"
      and "start p + size' p = st" "start q = st + n" "0 \<le> n"
  shows "deallocate_chain st n (pre @ p # q # post) =
           pre @ FreeExtent (start p) (start q + size' q - start p) # post"
proof -
  have before: "\<forall>e\<in>set (pre @ [p]). start e < st" using assms(1,2) by simp
  have stop: "q # post = [] \<or> \<not> start (hd (q # post)) < st" using assms(4,5) by simp
  have "deallocate_chain st n ((pre @ [p]) @ q # post) =
          spec_insert_coalesce st n (pre @ [p]) (q # post)"
    by (rule deallocate_chain_split[OF before stop])
  also have "\<dots> = pre @ FreeExtent (start p) (size' p + (n + size' q)) # post"
    using assms(3,4) by (simp add: spec_insert_coalesce_def Let_def)
  also have "size' p + (n + size' q) = start q + size' q - start p"
    using assms(3,4) by simp
  finally show ?thesis by simp
qed

lemma bridged_extents_consecutive:
  assumes "well_formed s" "inv1 s" "inv2 s"
      and "p \<in> set (free_list s)" "q \<in> set (free_list s)"
      and "start p + size' p = st" "start q = st + n" "1 \<le> n"
      and "\<forall>i\<in>{st..<st + n}. bitmap s ! nat i = 1"
  shows "\<exists>pre post. free_list s = pre @ p # q # post"
proof -
  let ?fl = "free_list s"
  from assms(1) have ext: "extents_on (disk_size s) ?fl"
    by (simp add: well_formed_def extents_on_def)
  from assms(3) have sep: "separated ?fl" by (rule inv2_separated)
  from ext assms(4,5) have pos: "0 < size' p" "0 < size' q" "0 \<le> start p"
    "start q + size' q \<le> disk_size s" by (auto simp: extents_on_def)
  from split_list[OF assms(4)] obtain pre rest where fl: "?fl = pre @ p # rest" by blast
  from sep fl have s1: "\<forall>x\<in>set pre. start x + size' x < start p"
    and s2: "\<forall>y\<in>set rest. start p + size' p < start y" and s3: "separated rest"
    by (auto simp: separated_def sorted_wrt_append)
  have "q \<noteq> p" using assms(6,7,8) pos by auto
  moreover have "q \<notin> set pre"
  proof
    assume "q \<in> set pre"
    with s1 have "start q + size' q < start p" by blast
    with assms(6,7,8) pos show False by simp
  qed
  ultimately have "q \<in> set rest" using assms(5) fl by auto
  from split_list[OF this] obtain mid post where rest: "rest = mid @ q # post" by blast
  have "mid = []"
  proof (rule ccontr)
    assume "mid \<noteq> []"
    then obtain e where e: "e \<in> set mid" by (cases mid) auto
    with rest s2 have lo: "start p + size' p < start e" by simp
    from s3 rest e have hi: "start e + size' e < start q"
      by (auto simp: separated_def sorted_wrt_append)
    from e rest fl have em: "e \<in> set ?fl" by simp
    with ext have ep: "0 < size' e" "0 \<le> start e" "start e + size' e \<le> disk_size s"
      by (auto simp: extents_on_def)
    from lo hi ep assms(6,7) have "start e \<in> {st..<st + n}" by simp
    with assms(9) have one: "bitmap s ! nat (start e) = 1" by blast
    from ep have "start e \<in> set (py_range 0 (disk_size s))" by simp
    with assms(2) one have "\<not> covered ?fl (start e)" unfolding inv1_def by blast
    moreover have "covered ?fl (start e)" using em ep(1) by (auto simp: covered_def covers_def)
    ultimately show False by simp
  qed
  with fl rest have "free_list s = pre @ p # q # post" by simp
  then show ?thesis by blast
qed

text \<open>
  C5 as stated fails for a chain that is out of order. On the 50-block device,
  after \<^verbatim>\<open>allocate(20, 5)\<close> and the double free \<^verbatim>\<open>deallocate(10, 5)\<close> the chain
  is [0:20), [10:15), [25:50): the extents [0:20) and [25:50) are disjoint and
  not adjacent, and the gap of blocks 20 to 24 is allocated. Then
  \<^verbatim>\<open>deallocate(20, 5)\<close> leaves [0:20), [10:15), [20:50), with no extent [0:50).
\<close>

theorem bridging_fails_on_unordered_chain:
  "run (fresh_state 50) [Allocate 20 5, Deallocate 10 5] =
     Inr \<lparr>disk_size = 50, bitmap = replicate 20 0 @ replicate 5 1 @ replicate 25 0,
          free_list = [FreeExtent 0 20, FreeExtent 10 5, FreeExtent 25 25],
          groups = [(0, 20), (25, 25)]\<rparr> \<and>
   \<not> overlap (FreeExtent 0 20) (FreeExtent 25 25) \<and>
   take 5 (drop 20 (replicate 20 0 @ replicate 5 1 @ replicate 25 (0::int))) = replicate 5 1 \<and>
   deallocate \<lparr>disk_size = 50, bitmap = replicate 20 0 @ replicate 5 1 @ replicate 25 0,
          free_list = [FreeExtent 0 20, FreeExtent 10 5, FreeExtent 25 25],
          groups = [(0, 20), (25, 25)]\<rparr> 20 5 =
     Inr (True, \<lparr>disk_size = 50, bitmap = replicate 50 0,
          free_list = [FreeExtent 0 20, FreeExtent 10 5, FreeExtent 20 30],
          groups = [(0, 50)]\<rparr>) \<and>
   FreeExtent 0 50 \<notin> set [FreeExtent 0 20, FreeExtent 10 5, FreeExtent 20 30]"
  by code_simp

text \<open>
  C5, amended. In every well-formed state that satisfies invariants 1 and 2,
  when the chain contains two extents and the deallocated range is exactly the
  allocated gap from the end of the first to the start of the second, the two
  extents are consecutive in the chain, the call succeeds, and the new chain is
  the old one with the two extents replaced by a single extent from the start of
  the first to the end of the second; in particular with free extents [0:5) and
  [10:15) on a 15-block device, \<^verbatim>\<open>deallocate(5, 5)\<close> yields the single extent
  [0:15).
\<close>

theorem bridging_deallocate_merges:
  assumes "well_formed s" "inv1 s" "inv2 s"
      and "p \<in> set (free_list s)" "q \<in> set (free_list s)"
      and "start p + size' p = st" "start q = st + n" "1 \<le> n"
      and "\<forall>i\<in>set (py_range st (st + n)). bitmap s ! nat i = 1"
  shows "\<exists>s' pre post. free_list s = pre @ p # q # post \<and>
           deallocate s st n = Inr (True, s') \<and>
           free_list s' = pre @ FreeExtent (start p) (start q + size' q - start p) # post"
proof -
  have gap: "\<forall>i\<in>{st..<st + n}. bitmap s ! nat i = 1" using assms(9) by simp
  from bridged_extents_consecutive[OF assms(1-8) gap] obtain pre post where
    fl: "free_list s = pre @ p # q # post" by blast
  from assms(1,4,5) have sz: "0 < size' p" "0 \<le> start p"
    "start q + size' q \<le> disk_size s" "0 < size' q"
    by (auto simp: well_formed_def)
  from assms(3) fl have "\<forall>e\<in>set pre. start e < start p"
    by (auto simp: inv2_def sorted_wrt_append)
  with sz assms(6) have pre: "\<forall>e\<in>set pre. start e < st" by auto
  have p: "start p < st" using sz assms(6) by linarith
  have n0: "0 \<le> n" using assms(8) by simp
  have chain: "deallocate_chain st n (free_list s) =
      pre @ FreeExtent (start p) (start q + size' q - start p) # post"
    unfolding fl by (rule deallocate_chain_bridge[OF pre p assms(6,7) n0])
  have "bitmap_sized s" using assms(1) by (simp add: well_formed_def)
  moreover have "0 \<le> st" using sz assms(6) by linarith
  moreover have "st + n \<le> disk_size s" using sz assms(7) by linarith
  ultimately obtain s' where "deallocate s st n = Inr (True, s')"
    "free_list s' = deallocate_chain st n (free_list s)"
    using deallocate_success[of s st n] by auto
  with chain fl show ?thesis by auto
qed

theorem bridging_deallocate_merges_witness:
  "well_formed \<lparr>disk_size = 15, bitmap = replicate 5 0 @ replicate 5 1 @ replicate 5 0,
       free_list = [FreeExtent 0 5, FreeExtent 10 5], groups = [(0, 5), (10, 5)]\<rparr> \<and>
   inv1 \<lparr>disk_size = 15, bitmap = replicate 5 0 @ replicate 5 1 @ replicate 5 0,
       free_list = [FreeExtent 0 5, FreeExtent 10 5], groups = [(0, 5), (10, 5)]\<rparr> \<and>
   inv2 \<lparr>disk_size = 15, bitmap = replicate 5 0 @ replicate 5 1 @ replicate 5 0,
       free_list = [FreeExtent 0 5, FreeExtent 10 5], groups = [(0, 5), (10, 5)]\<rparr> \<and>
   (\<exists>s'. deallocate \<lparr>disk_size = 15, bitmap = replicate 5 0 @ replicate 5 1 @ replicate 5 0,
       free_list = [FreeExtent 0 5, FreeExtent 10 5], groups = [(0, 5), (10, 5)]\<rparr> 5 5 = Inr (True, s') \<and>
      free_list s' = [FreeExtent 0 15])"
proof -
  let ?s = "\<lparr>disk_size = 15, bitmap = replicate 5 0 @ replicate 5 1 @ replicate 5 0,
       free_list = [FreeExtent 0 5, FreeExtent 10 5], groups = [(0, 5), (10, 5)]\<rparr>"
  have w: "well_formed ?s" by (auto simp: well_formed_def bitmap_sized_def)
  have i1: "inv1 ?s" by code_simp
  have i2: "inv2 ?s" by (simp add: inv2_def overlap_def)
  have p: "FreeExtent 0 5 \<in> set (free_list ?s)" and q: "FreeExtent 10 5 \<in> set (free_list ?s)"
    by simp_all
  have g: "\<forall>i\<in>set (py_range 5 (5 + 5)). bitmap ?s ! nat i = 1" by code_simp
  from bridging_deallocate_merges[OF w i1 i2 p q _ _ _ g] obtain s' pre post where
    fl: "free_list ?s = pre @ FreeExtent 0 5 # FreeExtent 10 5 # post"
    and d: "deallocate ?s 5 5 = Inr (True, s')"
    and r: "free_list s' = pre @ FreeExtent (start (FreeExtent 0 5))
               (start (FreeExtent 10 5) + size' (FreeExtent 10 5) - start (FreeExtent 0 5)) # post"
    by auto
  from fl have "pre = []" "post = []" by (auto simp: Cons_eq_append_conv append_eq_Cons_conv)
  with r have "free_list s' = [FreeExtent 0 15]" by simp
  with d w i1 i2 show ?thesis by blast
qed

end
